theory Spec2Isabelle
  imports Complex_Main "HOL-Library.Word" "HOL-Library.Multiset"
begin

section \<open>ddsearch: chunking, incremental indexing and hybrid retrieval\<close>

text \<open>
  A shallow embedding of the ddsearch sources (\<^verbatim>\<open>utils.js\<close>, \<^verbatim>\<open>chunker.js\<close>,
  \<^verbatim>\<open>search.js\<close>, \<^verbatim>\<open>indexer.js\<close>, \<^verbatim>\<open>getCollections\<close> of \<^verbatim>\<open>collections.js\<close> and the schema
  of \<^verbatim>\<open>db.js\<close>).

  Conventions of the embedding.
  \<^item> A JavaScript string is the list of its UTF-16 code units, each a natural number.
  \<^item> A JavaScript number that carries a score or a vector component is a real number:
    infinities and NaN are not modelled, and the properties of vector search are stated
    for stored vectors of finite floats. The rounding of the double arithmetic of
    \<^verbatim>\<open>cosineSimilarity\<close> and of the normalization of its result is a parameter of the
    embedding (\<open>fl\<close>, \<open>math_sqrt\<close>), since the clamp of the vector score depends on it;
    elsewhere the arithmetic is that of the real numbers.
  \<^item> An element of a \<^verbatim>\<open>Float32Array\<close> is its IEEE-754 bit pattern, a 32-bit word. When it
    is read as a Number or a Number is stored as a 32-bit float, every pattern but that
    of a NaN is kept; which NaN a NaN becomes is the choice of the engine
    (\<open>nan_pattern\<close>).
  \<^item> A thrown exception is the \<open>Inl\<close> branch of a sum type.
\<close>

unbundle bit_operations_syntax

subsection \<open>utils.js\<close>

type_synonym jschar = nat
type_synonym jsstring = "jschar list"
type_synonym byte = "8 word"
type_synonym float32 = "32 word"

datatype js_error = RangeError | Error string

definition js :: "string \<Rightarrow> jsstring" where
  "js s = map of_char s"

text \<open>\<^verbatim>\<open>Math.ceil(text.length / 4)\<close>\<close>

definition estimateTokens :: "jsstring \<Rightarrow> nat" where
  "estimateTokens text = (length text + 3) div 4"

text \<open>
  The choices of the JavaScript engine that the sources depend on: the bit pattern of
  the NaN that a NaN becomes when a 32-bit float is read as a Number or a Number is
  stored as a 32-bit float, the rounding \<open>fl\<close> of the exact result of an arithmetic
  operation to a double, and \<^verbatim>\<open>Math.sqrt\<close>.
\<close>

record js_engine =
  nan_pattern :: "float32 \<Rightarrow> float32"
  fl :: "real \<Rightarrow> real"
  math_sqrt :: "real \<Rightarrow> real"

text \<open>
  A NaN has all exponent bits set and a mantissa that is not zero. \<open>as_number\<close>: the
  pattern of a 32-bit float after it has passed through a Number; the pattern of a NaN
  is again that of a NaN (exponent bits and quiet bit set), every other pattern is kept.
\<close>

definition isNaN32 :: "float32 \<Rightarrow> bool" where
  "isNaN32 w \<longleftrightarrow> w AND 0x7F800000 = 0x7F800000 \<and> w AND 0x007FFFFF \<noteq> 0"

definition as_number :: "'e js_engine_scheme \<Rightarrow> float32 \<Rightarrow> float32" where
  "as_number eng w = (if isNaN32 w then nan_pattern eng w OR 0x7FC00000 else w)"

text \<open>
  \<^verbatim>\<open>buffer.writeFloatLE(value, offset)\<close> stores the Number as a 32-bit float, the four
  bytes of the bit pattern least significant first, and throws a range error when the
  four bytes do not fit.
\<close>

definition writeFloatLE :: "'e js_engine_scheme \<Rightarrow> byte list \<Rightarrow> float32 \<Rightarrow> nat \<Rightarrow> js_error + byte list" where
  "writeFloatLE eng buffer v off =
     (if off + 4 \<le> length buffer
      then
        let w = as_number eng v
        in Inr (buffer[off := ucast w, off + 1 := ucast (drop_bit 8 w),
                       off + 2 := ucast (drop_bit 16 w), off + 3 := ucast (drop_bit 24 w)])
      else Inl RangeError)"

definition bytes_float :: "byte \<Rightarrow> byte \<Rightarrow> byte \<Rightarrow> byte \<Rightarrow> float32" where
  "bytes_float b0 b1 b2 b3 =
     ucast b0 OR push_bit 8 (ucast b1) OR push_bit 16 (ucast b2) OR push_bit 24 (ucast b3)"

text \<open>\<^verbatim>\<open>buffer.readFloatLE(offset)\<close> returns the 32-bit float of the four bytes as a Number.\<close>

definition readFloatLE :: "'e js_engine_scheme \<Rightarrow> byte list \<Rightarrow> nat \<Rightarrow> js_error + float32" where
  "readFloatLE eng buffer off =
     (if off + 4 \<le> length buffer
      then Inr (as_number eng
                  (bytes_float (buffer ! off) (buffer ! (off + 1)) (buffer ! (off + 2)) (buffer ! (off + 3))))
      else Inl RangeError)"

text \<open>
  \<^verbatim>\<open>Buffer.allocUnsafe(n)\<close> returns \<open>n\<close> bytes of whatever the memory held; \<open>mem\<close> is that
  old content.
\<close>

definition allocUnsafe :: "(nat \<Rightarrow> byte) \<Rightarrow> nat \<Rightarrow> byte list" where
  "allocUnsafe mem n = map mem [0..<n]"

text \<open>The loop of \<^verbatim>\<open>float32ArrayToBuffer\<close>: \<^verbatim>\<open>arr[i]\<close> reads the element as a Number.\<close>

function float32ArrayToBuffer_loop ::
  "'e js_engine_scheme \<Rightarrow> float32 list \<Rightarrow> nat \<Rightarrow> byte list \<Rightarrow> js_error + byte list" where
  "float32ArrayToBuffer_loop eng arr i buffer =
     (if i < length arr then
        (case writeFloatLE eng buffer (as_number eng (arr ! i)) (i * 4) of
           Inl e \<Rightarrow> Inl e
         | Inr buffer' \<Rightarrow> float32ArrayToBuffer_loop eng arr (i + 1) buffer')
      else Inr buffer)"
  by pat_completeness auto
termination
  by (relation "measure (\<lambda>(eng, arr, i, buffer). length arr - i)") auto

definition float32ArrayToBuffer ::
  "'e js_engine_scheme \<Rightarrow> (nat \<Rightarrow> byte) \<Rightarrow> float32 list \<Rightarrow> js_error + byte list" where
  "float32ArrayToBuffer eng mem arr =
     float32ArrayToBuffer_loop eng arr 0 (allocUnsafe mem (length arr * 4))"

text \<open>
  The loop of \<^verbatim>\<open>bufferToFloat32Array\<close>: \<^verbatim>\<open>arr[i] = ...\<close> stores the Number as a 32-bit float.
\<close>

function bufferToFloat32Array_loop ::
  "'e js_engine_scheme \<Rightarrow> byte list \<Rightarrow> nat \<Rightarrow> float32 list \<Rightarrow> js_error + float32 list" where
  "bufferToFloat32Array_loop eng buffer i arr =
     (if i < length arr then
        (case readFloatLE eng buffer (i * 4) of
           Inl e \<Rightarrow> Inl e
         | Inr v \<Rightarrow> bufferToFloat32Array_loop eng buffer (i + 1) (arr[i := as_number eng v]))
      else Inr arr)"
  by pat_completeness auto
termination
  by (relation "measure (\<lambda>(eng, buffer, i, arr). length arr - i)") auto

text \<open>\<^verbatim>\<open>new Float32Array(buffer.length / 4)\<close> truncates a fractional length and is zero-filled.\<close>

definition bufferToFloat32Array :: "'e js_engine_scheme \<Rightarrow> byte list \<Rightarrow> js_error + float32 list" where
  "bufferToFloat32Array eng buffer =
     bufferToFloat32Array_loop eng buffer 0 (replicate (length buffer div 4) 0)"

text \<open>
  The real number that the pattern of a finite 32-bit float stands for: sign, eight
  exponent bits and 23 mantissa bits. The patterns with all exponent bits set (the
  infinities and the NaNs) stand for no real number; for them the value below has no
  meaning.
\<close>

definition float32_finite :: "float32 \<Rightarrow> bool" where
  "float32_finite w \<longleftrightarrow> w AND 0x7F800000 \<noteq> 0x7F800000"

definition float32_value :: "float32 \<Rightarrow> real" where
  "float32_value w =
     (let e = unat (drop_bit 23 w AND 0xFF);
          m = unat (w AND 0x7FFFFF);
          magnitude = (if e = 0 then real m / 2 ^ 149
                       else real (2 ^ 23 + m) *
                            (if 150 \<le> e then 2 ^ (e - 150) else 1 / 2 ^ (150 - e)))
      in if bit w 31 then - magnitude else magnitude)"

text \<open>
  \<^verbatim>\<open>cosineSimilarity\<close>: the loop accumulates the three sums, every operation rounded to a
  double.
\<close>

definition cosine_step :: "'e js_engine_scheme \<Rightarrow> real \<times> real \<times> real \<Rightarrow> real \<times> real \<Rightarrow> real \<times> real \<times> real" where
  "cosine_step eng acc xy =
     (case acc of (dotProduct, normA, normB) \<Rightarrow>
        (fl eng (dotProduct + fl eng (fst xy * snd xy)),
         fl eng (normA + fl eng (fst xy * fst xy)),
         fl eng (normB + fl eng (snd xy * snd xy))))"

definition cosineSimilarity :: "'e js_engine_scheme \<Rightarrow> real list \<Rightarrow> real list \<Rightarrow> js_error + real" where
  "cosineSimilarity eng a b =
     (if length a \<noteq> length b then Inl (Error ''Vectors must have the same length'')
      else
        case foldl (cosine_step eng) (0, 0, 0) (zip a b) of
          (dotProduct, normA, normB) \<Rightarrow>
            if normA = 0 \<or> normB = 0 then Inr 0
            else Inr (fl eng (dotProduct / fl eng (math_sqrt eng normA * math_sqrt eng normB))))"

text \<open>The buffer holds the bytes of \<open>v\<close> in its \<open>k\<close>-th group of four.\<close>

definition holds_float :: "byte list \<Rightarrow> nat \<Rightarrow> float32 \<Rightarrow> bool" where
  "holds_float buffer k v \<longleftrightarrow>
     buffer ! (k * 4) = ucast v \<and> buffer ! (k * 4 + 1) = ucast (drop_bit 8 v) \<and>
     buffer ! (k * 4 + 2) = ucast (drop_bit 16 v) \<and> buffer ! (k * 4 + 3) = ucast (drop_bit 24 v)"

declare float32ArrayToBuffer_loop.simps [simp del] bufferToFloat32Array_loop.simps [simp del]

text \<open>
  \<open>same_float32 a b\<close>: \<open>a\<close> is the 32-bit float value of \<open>b\<close>, where NaN is one value:
  the same bit pattern, or a NaN for a NaN.
\<close>

definition same_float32 :: "float32 \<Rightarrow> float32 \<Rightarrow> bool" where
  "same_float32 a b \<longleftrightarrow> (if isNaN32 b then isNaN32 a else a = b)"

text \<open>
  An engine for the examples: it keeps the payload of a NaN and sets its quiet bit, as
  the conversion instructions of x86 and ARM processors do, and its arithmetic is exact.
  The examples use small integers and their halves, on which double arithmetic is exact
  as well.
\<close>

definition example_engine :: js_engine where
  "example_engine = \<lparr>nan_pattern = (\<lambda>w. w), fl = (\<lambda>x. x), math_sqrt = sqrt\<rparr>"

subsection \<open>chunker.js\<close>

text \<open>
  The characters matched by \<^verbatim>\<open>\\s\<close> and removed by \<^verbatim>\<open>trim()\<close>: the ECMAScript white space
  and line terminator code points.
\<close>

definition is_ws :: "jschar \<Rightarrow> bool" where
  "is_ws c \<longleftrightarrow> c \<in> {9, 10, 11, 12, 13, 32, 160, 5760, 8232, 8233, 8239, 8287, 12288, 65279}
               \<or> (8192 \<le> c \<and> c \<le> 8202)"

definition js_trim :: "jsstring \<Rightarrow> jsstring" where
  "js_trim s = rev (dropWhile is_ws (rev (dropWhile is_ws s)))"

text \<open>\<^verbatim>\<open>content.split('\\n')\<close> and \<^verbatim>\<open>currentChunk.join('\\n')\<close>; code unit 10 is the line feed.\<close>

fun split_nl :: "jsstring \<Rightarrow> jsstring list" where
  "split_nl [] = [[]]"
| "split_nl (c # cs) =
     (if c = 10 then [] # split_nl cs
      else (case split_nl cs of [] \<Rightarrow> [[c]] | l # ls \<Rightarrow> (c # l) # ls))"

fun join_nl :: "jsstring list \<Rightarrow> jsstring" where
  "join_nl [] = []"
| "join_nl [l] = l"
| "join_nl (l # ls) = l @ 10 # join_nl ls"

definition TARGET_CHUNK_SIZE :: nat where "TARGET_CHUNK_SIZE = 300"
definition MIN_CHUNK_SIZE :: nat where "MIN_CHUNK_SIZE = 100"

text \<open>
  The four tests of a line. \<^verbatim>\<open>/^#{1,6}\\s/\<close>: the run of \<^verbatim>\<open>#\<close> (code unit 35) that opens the
  line has one to six characters and a white space character follows it (white space is
  not \<^verbatim>\<open>#\<close>, so a shorter prefix of a longer run cannot match).
  \<^verbatim>\<open>/^```/\<close>: the line opens with three backquotes (96).
  \<^verbatim>\<open>/^(-{3,}|\\*{3,}|_{3,})$/\<close>: the whole line is three or more of one of \<^verbatim>\<open>-\<close> (45),
  \<^verbatim>\<open>*\<close> (42), \<^verbatim>\<open>_\<close> (95).
  \<^verbatim>\<open>line.trim().length === 0\<close>.
\<close>

definition isHeading :: "jsstring \<Rightarrow> bool" where
  "isHeading line \<longleftrightarrow>
     (let n = length (takeWhile (\<lambda>c. c = 35) line)
      in 1 \<le> n \<and> n \<le> 6 \<and> n < length line \<and> is_ws (line ! n))"

definition isCodeFence :: "jsstring \<Rightarrow> bool" where
  "isCodeFence line \<longleftrightarrow> take 3 line = [96, 96, 96]"

definition isHorizontalRule :: "jsstring \<Rightarrow> bool" where
  "isHorizontalRule line \<longleftrightarrow>
     3 \<le> length line \<and>
     (list_all (\<lambda>c. c = 45) line \<or> list_all (\<lambda>c. c = 42) line \<or> list_all (\<lambda>c. c = 95) line)"

definition isBlankLine :: "jsstring \<Rightarrow> bool" where
  "isBlankLine line \<longleftrightarrow> length (js_trim line) = 0"

text \<open>The field \<^verbatim>\<open>text\<close> of a chunk is \<open>text_of\<close> here.\<close>

record chunk =
  text_of :: jsstring
  startLine :: nat
  endLine :: nat
  tokenCount :: nat

text \<open>The variables the closure \<^verbatim>\<open>flushChunk\<close> shares with the loop of \<^verbatim>\<open>chunkMarkdown\<close>.\<close>

record chunker =
  chunks :: "chunk list"
  currentChunk :: "jsstring list"
  currentTokens :: nat
  chunkStartLine :: nat

definition flushChunk :: "nat option \<Rightarrow> chunker \<Rightarrow> chunker" where
  "flushChunk nextStartLine st =
     (if length (currentChunk st) = 0 then st
      else
        let t = js_trim (join_nl (currentChunk st)) in
        if length t = 0 then st\<lparr>currentChunk := [], currentTokens := 0\<rparr>
        else
          let endL = chunkStartLine st + length (currentChunk st) - 1 in
          st\<lparr>chunks := chunks st @
                 [\<lparr>text_of = t, startLine = chunkStartLine st, endLine = endL,
                   tokenCount = estimateTokens t\<rparr>],
             currentChunk := [], currentTokens := 0,
             chunkStartLine := (case nextStartLine of None \<Rightarrow> endL + 1 | Some n \<Rightarrow> n)\<rparr>)"

text \<open>\<^verbatim>\<open>currentChunk.push(line); currentTokens += estimateTokens(line)\<close>\<close>

definition push_line :: "jsstring \<Rightarrow> chunker \<Rightarrow> chunker" where
  "push_line line st =
     st\<lparr>currentChunk := currentChunk st @ [line],
        currentTokens := currentTokens st + estimateTokens line\<rparr>"

text \<open>
  The inner \<^verbatim>\<open>while\<close> loop of a code block: it appends lines up to the next fence or the
  end of the input and returns the index \<open>j\<close> where it stopped.
\<close>

function fence_loop :: "jsstring list \<Rightarrow> nat \<Rightarrow> chunker \<Rightarrow> nat \<times> chunker" where
  "fence_loop lines j st =
     (if j < length lines \<and> \<not> isCodeFence (lines ! j)
      then fence_loop lines (j + 1) (push_line (lines ! j) st)
      else (j, st))"
  by pat_completeness auto
termination
  by (relation "measure (\<lambda>(lines, j, st). length lines - j)") auto

lemma fence_loop_ge: "j \<le> fst (fence_loop lines j st)"
proof (induction lines j st rule: fence_loop.induct)
  case (1 lines j st)
  show ?case
  proof (cases "j < length lines \<and> \<not> isCodeFence (lines ! j)")
    case True
    with 1 have "j + 1 \<le> fst (fence_loop lines (j + 1) (push_line (lines ! j) st))" by simp
    with True show ?thesis by (subst fence_loop.simps) simp
  next
    case False
    then show ?thesis by (subst fence_loop.simps) auto
  qed
qed

text \<open>
  The \<^verbatim>\<open>for\<close> loop over the lines. After a code block the loop variable is set to the
  closing fence only when one was found (\<^verbatim>\<open>if (j < lines.length) { ...; i = j; }\<close>).
\<close>

function chunk_loop :: "jsstring list \<Rightarrow> nat \<Rightarrow> chunker \<Rightarrow> chunker" where
  "chunk_loop lines i st =
     (if i < length lines then
        let line = lines ! i;
            st1 = (if isHeading line \<and> length (currentChunk st) > 0 \<and> currentTokens st \<ge> MIN_CHUNK_SIZE
                   then flushChunk (Some (i + 1)) st else st);
            st2 = push_line line st1
        in
          if isCodeFence line then
            let j = fst (fence_loop lines (i + 1) st2);
                st3 = snd (fence_loop lines (i + 1) st2);
                st4 = (if j < length lines then push_line (lines ! j) st3 else st3);
                i' = (if j < length lines then j else i);
                st5 = (if currentTokens st4 \<ge> TARGET_CHUNK_SIZE then flushChunk (Some (i' + 2)) st4 else st4)
            in chunk_loop lines (i' + 1) st5
          else
            let st3 = (if currentTokens st2 \<ge> TARGET_CHUNK_SIZE \<and>
                          (isBlankLine line \<or> isHorizontalRule line \<or> i = length lines - 1)
                       then flushChunk (Some (i + 2)) st2 else st2)
            in chunk_loop lines (i + 1) st3
      else st)"
  by pat_completeness auto
termination
proof (relation "measure (\<lambda>(lines, i, st). length lines - i)", goal_cases)
  case 1
  show ?case by simp
next
  case (2 lines i st line st1 st2 j st3 st4 i' st5)
  have "i + 1 \<le> j"
    using fence_loop_ge[of "i + 1" lines st2] 2(6) by simp
  with 2(1,9) have "i \<le> i' \<and> i' < length lines"
    by (simp split: if_splits)
  then show ?case by simp arith
next
  case (3 lines i st line st1 st2 st3)
  from 3(1) show ?case by simp
qed

definition chunkMarkdown :: "jsstring \<Rightarrow> chunk list" where
  "chunkMarkdown content =
     chunks (flushChunk None
       (chunk_loop (split_nl content) 0
          \<lparr>chunks = [], currentChunk = [], currentTokens = 0, chunkStartLine = 1\<rparr>))"

record file_chunk = chunk +
  filePath :: jsstring
  chunkIndex :: nat

definition chunkFile :: "jsstring \<Rightarrow> jsstring \<Rightarrow> file_chunk list" where
  "chunkFile path content =
     map (\<lambda>(index, c). chunk.extend c \<lparr>filePath = path, chunkIndex = index\<rparr>)
       (enumerate 0 (chunkMarkdown content))"

declare chunk_loop.simps [simp del] fence_loop.simps [simp del]

text \<open>
  Notions used to state the properties of the chunker. \<open>tiles s cs e\<close>: the line ranges
  of the chunks \<open>cs\<close>, in order, are non-empty, start at line \<open>s\<close>, each starts right
  after the previous one ends, and the last one ends at line \<open>e - 1\<close>.
  \<open>max_blank_run\<close>: the largest token estimate carried by a run of consecutive
  white-space-only lines (\<open>blank_run_max ls run\<close> scans the lines \<open>ls\<close> with \<open>run\<close> tokens
  in the run that is open).
  \<open>chunker_inv\<close>: the loop invariant of \<^verbatim>\<open>chunkMarkdown\<close> before line index \<open>i\<close>.
\<close>

fun tiles :: "nat \<Rightarrow> ('a chunk_scheme) list \<Rightarrow> nat \<Rightarrow> bool" where
  "tiles s [] e \<longleftrightarrow> s = e"
| "tiles s (c # cs) e \<longleftrightarrow> startLine c = s \<and> s \<le> endLine c \<and> tiles (endLine c + 1) cs e"

fun blank_run_max :: "jsstring list \<Rightarrow> nat \<Rightarrow> nat" where
  "blank_run_max [] run = run"
| "blank_run_max (l # ls) run =
     (if isBlankLine l then blank_run_max ls (run + estimateTokens l)
      else max run (blank_run_max ls 0))"

definition max_blank_run :: "jsstring list \<Rightarrow> nat" where
  "max_blank_run lines = blank_run_max lines 0"

definition chunker_inv :: "jsstring list \<Rightarrow> nat \<Rightarrow> chunker \<Rightarrow> bool" where
  "chunker_inv lines i st \<longleftrightarrow>
     i \<le> length lines \<and> 1 \<le> chunkStartLine st \<and>
     tiles 1 (chunks st) (chunkStartLine st) \<and>
     chunkStartLine st + length (currentChunk st) = i + 1 \<and>
     currentChunk st = drop (chunkStartLine st - 1) (take i lines) \<and>
     currentTokens st = sum_list (map estimateTokens (currentChunk st))"

subsection \<open>The store: the schema of db.js\<close>

text \<open>
  The four tables of \<^verbatim>\<open>initSchema\<close>, each a list of rows in insertion order, and the two
  \<^verbatim>\<open>AUTOINCREMENT\<close> counters (the largest id ever given out). The columns
  \<^verbatim>\<open>created_at\<close> and \<^verbatim>\<open>indexed_at\<close> are read by no statement of the sources and are left
  out.
\<close>

record collection_row =
  col_id :: nat
  col_name :: jsstring
  base_path :: jsstring
  glob_mask :: jsstring

record file_metadata_row =
  fm_id :: nat
  collection_id :: nat
  file_path :: jsstring
  file_hash :: jsstring

record chunk_row =
  chunk_id :: nat
  file_metadata_id :: nat
  chunk_index :: nat
  chunk_text :: jsstring
  start_line :: nat
  end_line :: nat
  token_count :: nat

record embedding_row =
  emb_chunk_id :: nat
  embedding :: "byte list"
  embedding_model :: jsstring

record database =
  tbl_collections :: "collection_row list"
  tbl_file_metadata :: "file_metadata_row list"
  tbl_chunks :: "chunk_row list"
  tbl_embeddings :: "embedding_row list"
  seq_file_metadata :: nat
  seq_chunks :: nat

subsection \<open>search.js\<close>

datatype jsnum = Num real | NotFinite

definition clampLimit :: "jsnum \<Rightarrow> nat" where
  "clampLimit limit =
     (let n = (case limit of Num r \<Rightarrow> r | NotFinite \<Rightarrow> 10)
      in nat (max 1 (min 100 \<lfloor>n\<rfloor>)))"

function split_ws :: "jsstring \<Rightarrow> jsstring list" where
  "split_ws [] = [[]]"
| "split_ws (c # cs) =
     (if is_ws c then [] # split_ws (dropWhile is_ws cs)
      else (case split_ws cs of [] \<Rightarrow> [[c]] | l # ls \<Rightarrow> (c # l) # ls))"
  by pat_completeness auto
termination
  by (relation "measure length") (auto simp: length_dropWhile_le le_imp_less_Suc)

fun join_sep :: "jsstring \<Rightarrow> jsstring list \<Rightarrow> jsstring" where
  "join_sep sep [] = []"
| "join_sep sep [t] = t"
| "join_sep sep (t # ts) = t @ sep @ join_sep sep ts"

definition escape_quotes :: "jsstring \<Rightarrow> jsstring" where
  "escape_quotes t = concat (map (\<lambda>c. if c = 34 then [34, 34] else [c]) t)"

definition fts_tokens :: "jsstring \<Rightarrow> jsstring list" where
  "fts_tokens query =
     map escape_quotes (filter (\<lambda>t. t \<noteq> []) (map js_trim (split_ws query)))"

definition escapeFtsQuery :: "jsstring \<Rightarrow> jsstring" where
  "escapeFtsQuery query =
     (let tokens = fts_tokens query
      in if length tokens = 0 then []
         else join_sep (js '' AND '') (map (\<lambda>t. 34 # t @ [34]) tokens))"


record 'raw search_result =
  chunkId :: nat
  res_text :: jsstring
  res_filePath :: jsstring
  res_startLine :: nat
  res_endLine :: nat
  collection :: jsstring
  score :: real
  rawScore :: 'raw

text \<open>
  The options object of a search; \<open>None\<close> is an option that is absent (\<^verbatim>\<open>undefined\<close>). A
  collection name that is absent or empty selects every collection.
\<close>

record search_options =
  limit :: "jsnum option"
  collectionName :: "jsstring option"
  bm25Weight :: "real option"
  vectorWeight :: "real option"

text \<open>
  What the search functions reach outside the sources: the engine, the answer of the
  full-text index to a \<^verbatim>\<open>MATCH\<close> query (row ids with their \<^verbatim>\<open>bm25\<close> values, or an error) and
  the embedding client.
\<close>

record search_env = js_engine +
  fts_match :: "jsstring \<Rightarrow> js_error + (nat \<times> real) list"
  generateQueryEmbedding :: "jsstring \<Rightarrow> js_error + real list"

datatype call = FtsQuery jsstring | CountEmbeddings | EmbeddingRequest jsstring | IterateEmbeddings

definition truthy :: "jsstring option \<Rightarrow> bool" where
  "truthy name \<longleftrightarrow> (case name of None \<Rightarrow> False | Some n \<Rightarrow> n \<noteq> [])"

definition chunk_joins ::
  "database \<Rightarrow> jsstring option \<Rightarrow> nat \<Rightarrow> (chunk_row \<times> file_metadata_row \<times> collection_row) list" where
  "chunk_joins db name cid =
     [(c, fm, col).
        c \<leftarrow> tbl_chunks db, chunk_id c = cid,
        fm \<leftarrow> tbl_file_metadata db, fm_id fm = file_metadata_id c,
        col \<leftarrow> tbl_collections db, col_id col = collection_id fm,
        \<not> truthy name \<or> Some (col_name col) = name]"

definition sql_bm25 ::
  "search_env \<Rightarrow> database \<Rightarrow> jsstring \<Rightarrow> jsstring option \<Rightarrow> nat
     \<Rightarrow> js_error + ((chunk_row \<times> file_metadata_row \<times> collection_row) \<times> real) list" where
  "sql_bm25 env db match name lmt =
     (case fts_match env match of
        Inl e \<Rightarrow> Inl e
      | Inr ms \<Rightarrow>
          Inr (take lmt [(row, s). (rowid, s) \<leftarrow> sort_key snd ms, row \<leftarrow> chunk_joins db name rowid]))"

definition sql_embeddings ::
  "database \<Rightarrow> jsstring option \<Rightarrow> (embedding_row \<times> chunk_row \<times> file_metadata_row \<times> collection_row) list" where
  "sql_embeddings db name =
     [(e, row). e \<leftarrow> tbl_embeddings db, row \<leftarrow> chunk_joins db name (emb_chunk_id e)]"

definition sql_count_embeddings :: "database \<Rightarrow> jsstring option \<Rightarrow> nat" where
  "sql_count_embeddings db name =
     (if truthy name then length (sql_embeddings db name) else length (tbl_embeddings db))"

definition js_includes :: "string \<Rightarrow> string \<Rightarrow> bool" where
  "js_includes s sub \<longleftrightarrow> list_ex (\<lambda>i. take (length sub) (drop i s) = sub) [0..<Suc (length s)]"

fun message_includes :: "js_error \<Rightarrow> string \<Rightarrow> bool" where
  "message_includes (Error m) sub = js_includes m sub"
| "message_includes RangeError sub = js_includes ''The value of \"offset\" is out of range.'' sub"

definition limit_or_10 :: "search_options \<Rightarrow> jsnum" where
  "limit_or_10 options = (case limit options of None \<Rightarrow> Num 10 | Some l \<Rightarrow> l)"

definition searchBM25 ::
  "search_env \<Rightarrow> database \<Rightarrow> jsstring \<Rightarrow> search_options
     \<Rightarrow> (js_error + real search_result list) \<times> call list" where
  "searchBM25 env db query options =
     (let lmt = clampLimit (limit_or_10 options);
          escapedQuery = escapeFtsQuery query
      in if escapedQuery = [] then (Inr [], [])
         else
           (case sql_bm25 env db escapedQuery (collectionName options) lmt of
              Inl error \<Rightarrow>
                (if message_includes error ''fts5'' then Inr [] else Inl error, [FtsQuery escapedQuery])
            | Inr results \<Rightarrow>
                let scores = map (\<lambda>r. \<bar>snd r\<bar>) results;
                    maxScore = foldr max scores 1
                in (Inr (map (\<lambda>(((c, fm, col), raw), s).
                          \<lparr>chunkId = chunk_id c, res_text = chunk_text c, res_filePath = file_path fm,
                           res_startLine = start_line c, res_endLine = end_line c,
                           collection = col_name col, score = s / maxScore, rawScore = raw\<rparr>)
                        (zip results scores)),
                    [FtsQuery escapedQuery])))"

function min_index_loop :: "('r, 'm) search_result_scheme list \<Rightarrow> nat \<Rightarrow> nat \<Rightarrow> nat" where
  "min_index_loop tops i minIndex =
     (if i < length tops
      then min_index_loop tops (i + 1) (if score (tops ! i) < score (tops ! minIndex) then i else minIndex)
      else minIndex)"
  by pat_completeness auto
termination
  by (relation "measure (\<lambda>(tops, i, minIndex). length tops - i)") auto

definition admit :: "nat \<Rightarrow> ('r, 'm) search_result_scheme \<Rightarrow> ('r, 'm) search_result_scheme list \<Rightarrow> ('r, 'm) search_result_scheme list" where
  "admit lmt entry tops =
     (if length tops < lmt then tops @ [entry]
      else
        let minIndex = min_index_loop tops 1 0
        in if score entry > score (tops ! minIndex) then tops[minIndex := entry] else tops)"

text \<open>
  The entry of a candidate:
  \<^verbatim>\<open>normalized = Math.max(0, Math.min(1, (similarity + 1) / 2))\<close>, the sum and the quotient
  rounded.
\<close>

definition normalized :: "'e js_engine_scheme \<Rightarrow> real \<Rightarrow> real" where
  "normalized eng similarity = max 0 (min 1 (fl eng (fl eng (similarity + 1) / 2)))"

definition entry_of ::
  "'e js_engine_scheme \<Rightarrow> embedding_row \<times> chunk_row \<times> file_metadata_row \<times> collection_row
     \<Rightarrow> real \<Rightarrow> real search_result" where
  "entry_of eng candidate similarity =
     (case candidate of (e, c, fm, col) \<Rightarrow>
        \<lparr>chunkId = emb_chunk_id e, res_text = chunk_text c, res_filePath = file_path fm,
         res_startLine = start_line c, res_endLine = end_line c, collection = col_name col,
         score = normalized eng similarity, rawScore = similarity\<rparr>)"

text \<open>
  The scan of the candidates. The elements of the decoded \<^verbatim>\<open>Float32Array\<close> enter
  \<^verbatim>\<open>cosineSimilarity\<close> as Numbers.
\<close>

fun scan_candidates ::
  "search_env \<Rightarrow> real list \<Rightarrow> nat
     \<Rightarrow> (embedding_row \<times> chunk_row \<times> file_metadata_row \<times> collection_row) list
     \<Rightarrow> real search_result list \<Rightarrow> js_error + real search_result list" where
  "scan_candidates env queryEmbedding lmt [] tops = Inr tops"
| "scan_candidates env queryEmbedding lmt (candidate # rest) tops =
     (case bufferToFloat32Array env (embedding (fst candidate)) of
        Inl e \<Rightarrow> Inl e
      | Inr bits \<Rightarrow>
          (case cosineSimilarity env queryEmbedding (map float32_value bits) of
             Inl e \<Rightarrow> Inl e
           | Inr similarity \<Rightarrow>
               scan_candidates env queryEmbedding lmt rest
                 (admit lmt (entry_of env candidate similarity) tops)))"

definition searchVector ::
  "search_env \<Rightarrow> database \<Rightarrow> jsstring \<Rightarrow> search_options
     \<Rightarrow> (js_error + real search_result list) \<times> call list" where
  "searchVector env db query options =
     (let lmt = clampLimit (limit_or_10 options)
      in if sql_count_embeddings db (collectionName options) = 0 then (Inr [], [CountEmbeddings])
         else
           (case generateQueryEmbedding env query of
              Inl e \<Rightarrow> (Inl e, [CountEmbeddings, EmbeddingRequest query])
            | Inr queryEmbedding \<Rightarrow>
                (case scan_candidates env queryEmbedding lmt
                        (sql_embeddings db (collectionName options)) [] of
                   Inl e \<Rightarrow> (Inl e, [CountEmbeddings, EmbeddingRequest query, IterateEmbeddings])
                 | Inr tops \<Rightarrow>
                     (Inr (sort_key (\<lambda>r. - score r) tops),
                      [CountEmbeddings, EmbeddingRequest query, IterateEmbeddings]))))"

record 'raw scored_result = "'raw search_result" +
  bm25Score :: real
  vectorScore :: real

record raw_scores =
  bm25 :: real
  vector :: real

fun map_set :: "'k \<Rightarrow> 'v \<Rightarrow> ('k \<times> 'v) list \<Rightarrow> ('k \<times> 'v) list" where
  "map_set k v [] = [(k, v)]"
| "map_set k v (p # m) = (if fst p = k then (k, v) # m else p # map_set k v m)"

definition add_bm25 :: "(nat \<times> real scored_result) list \<Rightarrow> real search_result \<Rightarrow> (nat \<times> real scored_result) list" where
  "add_bm25 scoreMap result =
     map_set (chunkId result)
       (search_result.extend result \<lparr>bm25Score = score result, vectorScore = 0\<rparr>) scoreMap"

definition add_vector :: "(nat \<times> real scored_result) list \<Rightarrow> real search_result \<Rightarrow> (nat \<times> real scored_result) list" where
  "add_vector scoreMap result =
     (case map_of scoreMap (chunkId result) of
        Some existing \<Rightarrow> map_set (chunkId result) (existing\<lparr>vectorScore := score result\<rparr>) scoreMap
      | None \<Rightarrow>
          map_set (chunkId result)
            (search_result.extend result \<lparr>bm25Score = 0, vectorScore = score result\<rparr>) scoreMap)"

definition combine :: "real \<Rightarrow> real \<Rightarrow> real scored_result \<Rightarrow> raw_scores scored_result" where
  "combine wb wv result =
     \<lparr>chunkId = chunkId result, res_text = res_text result, res_filePath = res_filePath result,
      res_startLine = res_startLine result, res_endLine = res_endLine result,
      collection = collection result,
      score = bm25Score result * wb + vectorScore result * wv,
      rawScore = \<lparr>bm25 = bm25Score result, vector = vectorScore result\<rparr>,
      bm25Score = bm25Score result, vectorScore = vectorScore result\<rparr>"

definition times3 :: "jsnum \<Rightarrow> jsnum" where
  "times3 l = (case l of Num r \<Rightarrow> Num (r * 3) | NotFinite \<Rightarrow> NotFinite)"

text \<open>The options object \<^verbatim>\<open>{ limit: limit * 3, collectionName }\<close> given to both legs.\<close>

definition leg_options :: "search_options \<Rightarrow> search_options" where
  "leg_options options =
     \<lparr>limit = Some (times3 (limit_or_10 options)), collectionName = collectionName options,
      bm25Weight = None, vectorWeight = None\<rparr>"

text \<open>A destructuring default of a weight: \<^verbatim>\<open>bm25Weight = 0.4\<close>, \<^verbatim>\<open>vectorWeight = 0.6\<close>.\<close>

definition weight_or :: "real \<Rightarrow> real option \<Rightarrow> real" where
  "weight_or d w = (case w of None \<Rightarrow> d | Some x \<Rightarrow> x)"

definition searchHybrid ::
  "search_env \<Rightarrow> database \<Rightarrow> jsstring \<Rightarrow> search_options
     \<Rightarrow> (js_error + raw_scores scored_result list) \<times> call list" where
  "searchHybrid env db query options =
     (let wb = weight_or 0.4 (bm25Weight options);
          wv = weight_or 0.6 (vectorWeight options);
          (bm25Leg, calls1) = searchBM25 env db query (leg_options options)
      in case bm25Leg of
           Inl e \<Rightarrow> (Inl e, calls1)
         | Inr bm25Results \<Rightarrow>
             let (vectorLeg, calls2) = searchVector env db query (leg_options options);
                 vectorResults = (case vectorLeg of Inl error \<Rightarrow> [] | Inr rs \<Rightarrow> rs);
                 scoreMap = foldl add_vector (foldl add_bm25 [] bm25Results) vectorResults;
                 combined = map (combine wb wv) (map snd scoreMap)
             in (Inr (take (clampLimit (limit_or_10 options)) (sort_key (\<lambda>r. - score r) combined)),
                 calls1 @ calls2))"

text \<open>
  Notions used to state the properties of lexical search. \<open>ws_words\<close>: the maximal runs
  of characters that are not white space, in order. \<open>undouble\<close> and \<open>fts_literal\<close> read a
  string literal of the full-text query language (\<^verbatim>\<open>"..."\<close>, a quote inside written twice).
\<close>

function ws_words :: "jsstring \<Rightarrow> jsstring list" where
  "ws_words s =
     (let r = dropWhile is_ws s
      in if r = [] then []
         else takeWhile (\<lambda>c. \<not> is_ws c) r # ws_words (dropWhile (\<lambda>c. \<not> is_ws c) r))"
  by pat_completeness auto
termination
proof (relation "measure length", goal_cases)
  case 1
  show ?case by simp
next
  case (2 s r)
  then have "r \<noteq> []" by simp
  then obtain a l where r: "r = a # l"
    by (meson neq_Nil_conv)
  have "\<not> is_ws (hd r)"
    using 2 hd_dropWhile[of is_ws s] by simp
  then have "dropWhile (\<lambda>c. \<not> is_ws c) r = dropWhile (\<lambda>c. \<not> is_ws c) l"
    by (simp add: r)
  moreover have "length (dropWhile (\<lambda>c. \<not> is_ws c) l) \<le> length l"
    by (rule length_dropWhile_le)
  moreover have "length r \<le> length s"
    using 2 by (simp add: length_dropWhile_le)
  ultimately show ?case by (simp add: r)
qed



declare split_ws.simps [simp del] ws_words.simps [simp del] min_index_loop.simps [simp del]

text \<open>
  Notions used to state the properties of vector search. \<open>stored_floats\<close>: the 32-bit
  floats in the buffer of a candidate row, four bytes each. \<open>finite_candidate\<close>: they are
  all finite. \<open>vector_of\<close>: the stored vector of a candidate row as read by the scan.
  \<open>similarity_of\<close>, \<open>entries\<close>: the similarity of each candidate with the query vector and
  the entry the scan builds for it.
  \<open>top_k_of K es res\<close>: \<open>res\<close> holds \<open>min K (length es)\<close> of the entries \<open>es\<close>, and every
  entry left out scores no more than every entry kept.
\<close>

type_synonym candidate = "embedding_row \<times> chunk_row \<times> file_metadata_row \<times> collection_row"



definition vector_of :: "search_env \<Rightarrow> candidate \<Rightarrow> real list" where
  "vector_of env candidate =
     (case bufferToFloat32Array env (embedding (fst candidate)) of
        Inl e \<Rightarrow> []
      | Inr bits \<Rightarrow> map float32_value bits)"

definition similarity_of :: "search_env \<Rightarrow> real list \<Rightarrow> candidate \<Rightarrow> real" where
  "similarity_of env q candidate =
     (case cosineSimilarity env q (vector_of env candidate) of Inl e \<Rightarrow> 0 | Inr s \<Rightarrow> s)"

definition entries :: "search_env \<Rightarrow> real list \<Rightarrow> candidate list \<Rightarrow> real search_result list" where
  "entries env q candidates = map (\<lambda>c. entry_of env c (similarity_of env q c)) candidates"

definition query_vector :: "search_env \<Rightarrow> jsstring \<Rightarrow> real list" where
  "query_vector env query = (case generateQueryEmbedding env query of Inl e \<Rightarrow> [] | Inr q \<Rightarrow> q)"

definition top_k_of :: "nat \<Rightarrow> ('r, 'm) search_result_scheme list \<Rightarrow> ('r, 'm) search_result_scheme list \<Rightarrow> bool" where
  "top_k_of K es res \<longleftrightarrow>
     length res = min K (length es) \<and>
     (\<exists>rest. mset es = mset res + mset rest \<and>
        (\<forall>x \<in> set rest. \<forall>y \<in> set res. score x \<le> score y))"

text \<open>
  Notions used to state the properties of hybrid search. \<open>score_in rs k\<close>: the normalized
  score of chunk \<open>k\<close> in the result list \<open>rs\<close> of one leg (of its last entry there), and 0
  when \<open>rs\<close> has no entry for \<open>k\<close>. \<open>fused bm vec m\<close>: the score map \<open>m\<close> has one entry for
  every chunk of either leg, holding the two scores of the chunk. \<open>lexical_only\<close>: the
  hybrid result of a chunk that only the lexical leg returned.
\<close>

definition score_in :: "('r, 'm) search_result_scheme list \<Rightarrow> nat \<Rightarrow> real" where
  "score_in rs k = (case find (\<lambda>r. chunkId r = k) (rev rs) of None \<Rightarrow> 0 | Some r \<Rightarrow> score r)"

definition fused ::
  "real search_result list \<Rightarrow> real search_result list \<Rightarrow> (nat \<times> real scored_result) list \<Rightarrow> bool" where
  "fused bm vec m \<longleftrightarrow>
     distinct (map fst m) \<and>
     fst ` set m = chunkId ` set bm \<union> chunkId ` set vec \<and>
     (\<forall>k r. (k, r) \<in> set m \<longrightarrow>
        chunkId r = k \<and> bm25Score r = score_in bm k \<and> vectorScore r = score_in vec k)"

definition lexical_only :: "real \<Rightarrow> real search_result \<Rightarrow> raw_scores scored_result" where
  "lexical_only wb result =
     \<lparr>chunkId = chunkId result, res_text = res_text result, res_filePath = res_filePath result,
      res_startLine = res_startLine result, res_endLine = res_endLine result,
      collection = collection result,
      score = score result * wb,
      rawScore = \<lparr>bm25 = score result, vector = 0\<rparr>,
      bm25Score = score result, vectorScore = 0\<rparr>"

text \<open>
  A small store and environment on which the properties below are exercised. The
  embeddings of \<open>vector_db\<close> are the one-element vectors \<open>- 1.0\<close> (bytes 00 00 80 BF) and
  \<open>1.0\<close> (bytes 00 00 80 3F); those of \<open>many_db n\<close> are all \<open>1.0\<close>.
\<close>

definition example_db :: database where
  "example_db =
     \<lparr>tbl_collections =
        [\<lparr>col_id = 1, col_name = js ''notes'', base_path = js ''/n'', glob_mask = js ''*.md''\<rparr>],
      tbl_file_metadata =
        [\<lparr>fm_id = 1, collection_id = 1, file_path = js ''/n/a.md'', file_hash = js ''h1''\<rparr>],
      tbl_chunks =
        [\<lparr>chunk_id = 1, file_metadata_id = 1, chunk_index = 0, chunk_text = js ''foo'',
          start_line = 1, end_line = 2, token_count = 1\<rparr>,
         \<lparr>chunk_id = 2, file_metadata_id = 1, chunk_index = 1, chunk_text = js ''foo bar'',
          start_line = 3, end_line = 4, token_count = 2\<rparr>],
      tbl_embeddings = [],
      seq_file_metadata = 1, seq_chunks = 2\<rparr>"

definition example_env :: search_env where
  "example_env =
     \<lparr>nan_pattern = nan_pattern example_engine, fl = fl example_engine,
      math_sqrt = math_sqrt example_engine,
      fts_match = (\<lambda>q. Inr [(1, - 2), (2, - 4)]),
      generateQueryEmbedding = (\<lambda>q. Inr [1])\<rparr>"

definition default_options :: search_options where
  "default_options = \<lparr>limit = None, collectionName = None, bm25Weight = None, vectorWeight = None\<rparr>"

definition weighted_options :: search_options where
  "weighted_options =
     \<lparr>limit = Some (Num 2), collectionName = None, bm25Weight = Some (1 / 2),
      vectorWeight = Some (1 / 4)\<rparr>"

definition vector_db :: database where
  "vector_db = example_db\<lparr>tbl_embeddings :=
     [\<lparr>emb_chunk_id = 1, embedding = [0, 0, 128, 191], embedding_model = js ''m''\<rparr>,
      \<lparr>emb_chunk_id = 2, embedding = [0, 0, 128, 63], embedding_model = js ''m''\<rparr>]\<rparr>"


definition failing_env :: search_env where
  "failing_env = example_env\<lparr>generateQueryEmbedding := (\<lambda>q. Inl (Error ''OpenAI API key not found''))\<rparr>"

subsection \<open>indexer.js and collections.js\<close>

text \<open>
  \<^verbatim>\<open>isProbablyBinary\<close> of utils.js: the scan of the sample returns at the first null byte (\<open>None\<close>
  here) and counts the bytes that are not printable. The final test is
  \<^verbatim>\<open>nonPrintable / sampleSize > 0.3\<close>, false for an empty sample (\<^verbatim>\<open>0 / 0\<close> is NaN).
\<close>

definition isPrintable :: "byte \<Rightarrow> bool" where
  "isPrintable b \<longleftrightarrow> b = 9 \<or> b = 10 \<or> b = 13 \<or> (32 \<le> b \<and> b \<le> 126)"

fun binary_scan :: "byte list \<Rightarrow> nat \<Rightarrow> nat option" where
  "binary_scan [] nonPrintable = Some nonPrintable"
| "binary_scan (b # bs) nonPrintable =
     (if b = 0 then None
      else binary_scan bs (if isPrintable b then nonPrintable else nonPrintable + 1))"

definition isProbablyBinary :: "byte list \<Rightarrow> bool" where
  "isProbablyBinary buffer =
     (let sampleSize = min (length buffer) 8000
      in case binary_scan (take sampleSize buffer) 0 of
           None \<Rightarrow> True
         | Some nonPrintable \<Rightarrow>
             sampleSize \<noteq> 0 \<and> real nonPrintable / real sampleSize > 3 / 10)"

text \<open>
  The file system and the two library functions the indexer calls: \<^verbatim>\<open>fast-glob\<close> on the
  pattern of a collection, \<^verbatim>\<open>existsSync\<close>, \<^verbatim>\<open>readFileSync\<close> (which may throw),
  \<^verbatim>\<open>buffer.toString('utf-8')\<close> and the SHA-256 digest of \<^verbatim>\<open>hashContent\<close>.
\<close>

record filesystem =
  glob_sync :: "jsstring \<Rightarrow> jsstring \<Rightarrow> jsstring list"
  existsSync :: "jsstring \<Rightarrow> bool"
  readFileSync :: "jsstring \<Rightarrow> js_error + byte list"
  utf8_toString :: "byte list \<Rightarrow> jsstring"
  hashContent :: "jsstring \<Rightarrow> jsstring"

definition discoverFiles :: "filesystem \<Rightarrow> collection_row \<Rightarrow> jsstring list" where
  "discoverFiles fs coll = glob_sync fs (base_path coll) (glob_mask coll)"

text \<open>\<^verbatim>\<open>readFileSafe\<close>: \<open>None\<close> is \<^verbatim>\<open>{ content: null, binary: true }\<close>.\<close>

definition readFileSafe :: "filesystem \<Rightarrow> jsstring \<Rightarrow> js_error + jsstring option" where
  "readFileSafe fs path =
     (case readFileSync fs path of
        Inl e \<Rightarrow> Inl e
      | Inr buffer \<Rightarrow>
          if isProbablyBinary buffer then Inr None else Inr (Some (utf8_toString fs buffer)))"

text \<open>
  The statements of the indexer on the store. \<^verbatim>\<open>DELETE FROM file_metadata WHERE id = ?\<close>
  cascades to the chunks of the file and to the embeddings of those chunks
  (\<^verbatim>\<open>ON DELETE CASCADE\<close>). An \<^verbatim>\<open>INSERT\<close> takes the next \<^verbatim>\<open>AUTOINCREMENT\<close> id, one more than
  every id in the table and every id given out before, and fails on a violated
  \<^verbatim>\<open>UNIQUE\<close> or \<^verbatim>\<open>FOREIGN KEY\<close> constraint.
\<close>

definition find_file_metadata :: "database \<Rightarrow> nat \<Rightarrow> jsstring \<Rightarrow> file_metadata_row option" where
  "find_file_metadata db collectionId path =
     find (\<lambda>r. collection_id r = collectionId \<and> file_path r = path) (tbl_file_metadata db)"

definition delete_file_metadata :: "nat \<Rightarrow> database \<Rightarrow> database" where
  "delete_file_metadata fid db =
     (let gone = map chunk_id (filter (\<lambda>c. file_metadata_id c = fid) (tbl_chunks db))
      in db\<lparr>tbl_file_metadata := filter (\<lambda>r. fm_id r \<noteq> fid) (tbl_file_metadata db),
            tbl_chunks := filter (\<lambda>c. file_metadata_id c \<noteq> fid) (tbl_chunks db),
            tbl_embeddings := filter (\<lambda>e. emb_chunk_id e \<notin> set gone) (tbl_embeddings db)\<rparr>)"

definition next_id :: "nat \<Rightarrow> nat list \<Rightarrow> nat" where
  "next_id seq ids = Suc (foldr max ids seq)"

definition insert_file_metadata ::
  "nat \<Rightarrow> jsstring \<Rightarrow> jsstring \<Rightarrow> database \<Rightarrow> js_error + nat \<times> database" where
  "insert_file_metadata collectionId path contentHash db =
     (if list_ex (\<lambda>r. collection_id r = collectionId \<and> file_path r = path) (tbl_file_metadata db)
      then Inl (Error ''UNIQUE constraint failed: file_metadata.collection_id, file_metadata.file_path'')
      else if \<not> list_ex (\<lambda>c. col_id c = collectionId) (tbl_collections db)
      then Inl (Error ''FOREIGN KEY constraint failed'')
      else
        let rowid = next_id (seq_file_metadata db) (map fm_id (tbl_file_metadata db))
        in Inr (rowid,
                db\<lparr>tbl_file_metadata := tbl_file_metadata db @
                      [\<lparr>fm_id = rowid, collection_id = collectionId, file_path = path,
                        file_hash = contentHash\<rparr>],
                   seq_file_metadata := rowid\<rparr>))"

definition insert_chunk :: "nat \<Rightarrow> file_chunk \<Rightarrow> database \<Rightarrow> js_error + database" where
  "insert_chunk fileMetadataId chunk db =
     (if \<not> list_ex (\<lambda>r. fm_id r = fileMetadataId) (tbl_file_metadata db)
      then Inl (Error ''FOREIGN KEY constraint failed'')
      else
        let rowid = next_id (seq_chunks db) (map chunk_id (tbl_chunks db))
        in Inr (db\<lparr>tbl_chunks := tbl_chunks db @
                      [\<lparr>chunk_id = rowid, file_metadata_id = fileMetadataId,
                        chunk_index = chunkIndex chunk, chunk_text = text_of chunk,
                        start_line = startLine chunk, end_line = endLine chunk,
                        token_count = tokenCount chunk\<rparr>],
                   seq_chunks := rowid\<rparr>))"

text \<open>The loop that inserts the chunks of a file and counts them.\<close>

fun insert_chunks :: "nat \<Rightarrow> file_chunk list \<Rightarrow> nat \<Rightarrow> database \<Rightarrow> js_error + nat \<times> database" where
  "insert_chunks fileMetadataId [] insertedChunks db = Inr (insertedChunks, db)"
| "insert_chunks fileMetadataId (chunk # rest) insertedChunks db =
     (case insert_chunk fileMetadataId chunk db of
        Inl e \<Rightarrow> Inl e
      | Inr db' \<Rightarrow> insert_chunks fileMetadataId rest (insertedChunks + 1) db')"

datatype reason = not_found | binary | read_error | unchanged

text \<open>\<^verbatim>\<open>{ indexed: false, reason }\<close> and \<^verbatim>\<open>{ indexed: true, chunks }\<close>.\<close>

datatype file_result = NotIndexed reason | Indexed nat

definition delete_existing :: "file_metadata_row option \<Rightarrow> database \<Rightarrow> database" where
  "delete_existing existing db =
     (case existing of None \<Rightarrow> db | Some r \<Rightarrow> delete_file_metadata (fm_id r) db)"

definition indexFile ::
  "filesystem \<Rightarrow> nat \<Rightarrow> jsstring \<Rightarrow> bool \<Rightarrow> database \<Rightarrow> js_error + file_result \<times> database" where
  "indexFile fs collectionId path forceReindex db =
     (if \<not> existsSync fs path then Inr (NotIndexed not_found, db)
      else
        let existing = find_file_metadata db collectionId path
        in case readFileSafe fs path of
             Inl error \<Rightarrow> Inr (NotIndexed read_error, db)
           | Inr None \<Rightarrow> Inr (NotIndexed binary, delete_existing existing db)
           | Inr (Some content) \<Rightarrow>
               let contentHash = hashContent fs content
               in if (case existing of None \<Rightarrow> False | Some r \<Rightarrow> file_hash r = contentHash) \<and>
                     \<not> forceReindex
                  then Inr (NotIndexed unchanged, db)
                  else
                    (case insert_file_metadata collectionId path contentHash
                            (delete_existing existing db) of
                       Inl e \<Rightarrow> Inl e
                     | Inr (fileMetadataId, db') \<Rightarrow>
                         (case insert_chunks fileMetadataId (chunkFile path content) 0 db' of
                            Inl e \<Rightarrow> Inl e
                          | Inr (insertedChunks, db'') \<Rightarrow> Inr (Indexed insertedChunks, db''))))"

record collection_result =
  c_name :: jsstring
  c_files :: nat
  c_indexed :: nat
  c_skipped :: nat
  c_removed :: nat
  c_chunks :: nat

text \<open>The first loop of the transaction: the rows of files that are no longer matched.\<close>

fun remove_deleted :: "jsstring list \<Rightarrow> file_metadata_row list \<Rightarrow> nat \<Rightarrow> database \<Rightarrow> nat \<times> database" where
  "remove_deleted files [] collectionRemoved db = (collectionRemoved, db)"
| "remove_deleted files (existing # rest) collectionRemoved db =
     (if file_path existing \<notin> set files
      then remove_deleted files rest (collectionRemoved + 1) (delete_file_metadata (fm_id existing) db)
      else remove_deleted files rest collectionRemoved db)"

text \<open>The second loop: the counters are \<^verbatim>\<open>collectionIndexed\<close>, \<^verbatim>\<open>collectionSkipped\<close>, \<^verbatim>\<open>collectionChunks\<close>.\<close>

fun index_files ::
  "filesystem \<Rightarrow> nat \<Rightarrow> bool \<Rightarrow> jsstring list \<Rightarrow> nat \<times> nat \<times> nat \<Rightarrow> database
     \<Rightarrow> js_error + (nat \<times> nat \<times> nat) \<times> database" where
  "index_files fs collectionId full [] counters db = Inr (counters, db)"
| "index_files fs collectionId full (file # rest) (collectionIndexed, collectionSkipped, collectionChunks) db =
     (case indexFile fs collectionId file full db of
        Inl e \<Rightarrow> Inl e
      | Inr (NotIndexed why, db') \<Rightarrow>
          index_files fs collectionId full rest (collectionIndexed, collectionSkipped + 1, collectionChunks) db'
      | Inr (Indexed n, db') \<Rightarrow>
          index_files fs collectionId full rest (collectionIndexed + 1, collectionSkipped, collectionChunks + n) db')"

text \<open>
  The body of \<^verbatim>\<open>db.transaction\<close> for one collection, with the entry it adds to the
  results. An exception rolls the transaction back: no store is returned.
\<close>

definition index_transaction ::
  "filesystem \<Rightarrow> collection_row \<Rightarrow> bool \<Rightarrow> database \<Rightarrow> js_error + collection_result \<times> database" where
  "index_transaction fs coll full db =
     (let files = discoverFiles fs coll;
          existingFiles = filter (\<lambda>r. collection_id r = col_id coll) (tbl_file_metadata db);
          (collectionRemoved, db') = remove_deleted files existingFiles 0 db
      in case index_files fs (col_id coll) full files (0, 0, 0) db' of
           Inl e \<Rightarrow> Inl e
         | Inr ((collectionIndexed, collectionSkipped, collectionChunks), db'') \<Rightarrow>
             Inr (\<lparr>c_name = col_name coll, c_files = length files,
                   c_indexed = collectionIndexed, c_skipped = collectionSkipped,
                   c_removed = collectionRemoved, c_chunks = collectionChunks\<rparr>, db''))"

record index_results =
  collection_results :: "collection_result list"
  totalFiles :: nat
  totalChunks :: nat
  indexed :: nat
  skipped :: nat
  removed :: nat

text \<open>\<^verbatim>\<open>{ error: 'No collections found' }\<close> is returned, not thrown.\<close>

datatype index_outcome = NoCollectionsFound | IndexResults index_results

text \<open>
  \<^verbatim>\<open>getCollections\<close> of collections.js. \<^verbatim>\<open>ORDER BY name\<close> compares the names as SQLite does,
  byte by byte in UTF-8; on code units that is the lexicographic order below, for names
  without surrogate pairs.
\<close>

fun name_le :: "jsstring \<Rightarrow> jsstring \<Rightarrow> bool" where
  "name_le [] ys = True"
| "name_le (x # xs) [] = False"
| "name_le (x # xs) (y # ys) = (x < y \<or> (x = y \<and> name_le xs ys))"

fun insert_by_name :: "collection_row \<Rightarrow> collection_row list \<Rightarrow> collection_row list" where
  "insert_by_name c [] = [c]"
| "insert_by_name c (d # ds) =
     (if name_le (col_name c) (col_name d) then c # d # ds else d # insert_by_name c ds)"

definition order_by_name :: "collection_row list \<Rightarrow> collection_row list" where
  "order_by_name rows = foldr insert_by_name rows []"

definition getCollection :: "database \<Rightarrow> jsstring \<Rightarrow> collection_row option" where
  "getCollection db name = find (\<lambda>c. col_name c = name) (tbl_collections db)"

definition getCollections :: "database \<Rightarrow> jsstring option \<Rightarrow> collection_row list" where
  "getCollections db nameFilter =
     (case nameFilter of
        None \<Rightarrow> order_by_name (tbl_collections db)
      | Some name \<Rightarrow>
          if name = [] then order_by_name (tbl_collections db)
          else (case getCollection db name of None \<Rightarrow> [] | Some c \<Rightarrow> [c]))"

fun index_loop ::
  "filesystem \<Rightarrow> bool \<Rightarrow> collection_row list \<Rightarrow> index_results \<Rightarrow> database
     \<Rightarrow> (js_error + index_results) \<times> database" where
  "index_loop fs full [] results db = (Inr results, db)"
| "index_loop fs full (coll # rest) results db =
     (case index_transaction fs coll full db of
        Inl e \<Rightarrow> (Inl e, db)
      | Inr (entry, db') \<Rightarrow>
          index_loop fs full rest
            \<lparr>collection_results = collection_results results @ [entry],
             totalFiles = totalFiles results + c_files entry,
             totalChunks = totalChunks results + c_chunks entry,
             indexed = indexed results + c_indexed entry,
             skipped = skipped results + c_skipped entry,
             removed = removed results + c_removed entry\<rparr> db')"

definition indexCollections ::
  "filesystem \<Rightarrow> jsstring option \<Rightarrow> bool \<Rightarrow> database \<Rightarrow> (js_error + index_outcome) \<times> database" where
  "indexCollections fs nameFilter full db =
     (let collections = getCollections db nameFilter
      in if length collections = 0 then (Inr NoCollectionsFound, db)
         else
           (case index_loop fs full collections
                   \<lparr>collection_results = [], totalFiles = 0, totalChunks = 0,
                    indexed = 0, skipped = 0, removed = 0\<rparr> db of
              (Inl e, db') \<Rightarrow> (Inl e, db')
            | (Inr results, db') \<Rightarrow> (Inr (IndexResults results), db')))"

text \<open>
  Notions used to state the properties of indexing. \<open>store_ok\<close>: the constraints the
  schema keeps (the primary keys of \<^verbatim>\<open>collections\<close>, \<^verbatim>\<open>file_metadata\<close> and \<^verbatim>\<open>chunks\<close>, the \<^verbatim>\<open>UNIQUE\<close>
  constraint of \<^verbatim>\<open>file_metadata\<close>) and the \<^verbatim>\<open>AUTOINCREMENT\<close> counters bound the ids in use.
  \<open>purged fid cids db\<close>: no file row has id \<open>fid\<close>, no chunk belongs to it, no chunk and
  no embedding has an id of \<open>cids\<close>, and none of these ids can be given out again.
  \<open>file_synced\<close>: the store holds for a matched file what indexing it leaves there.
  \<open>collection_synced\<close>: every file row of the collection is a matched file and every
  matched file is synced. \<open>removed_file\<close>: the row is a file row of the collection whose
  path is not among the matched files (\<open>stale\<close>). \<open>chunk_ids_of\<close>: the ids of the chunks
  of a file row.
\<close>

definition file_key :: "file_metadata_row \<Rightarrow> nat \<times> jsstring" where
  "file_key r = (collection_id r, file_path r)"

definition store_ok :: "database \<Rightarrow> bool" where
  "store_ok db \<longleftrightarrow>
     distinct (map col_id (tbl_collections db)) \<and>
     distinct (map fm_id (tbl_file_metadata db)) \<and>
     distinct (map file_key (tbl_file_metadata db)) \<and>
     distinct (map chunk_id (tbl_chunks db)) \<and>
     (\<forall>r \<in> set (tbl_file_metadata db). fm_id r \<le> seq_file_metadata db) \<and>
     (\<forall>c \<in> set (tbl_chunks db). chunk_id c \<le> seq_chunks db)"

definition purged :: "nat \<Rightarrow> nat set \<Rightarrow> database \<Rightarrow> bool" where
  "purged fid cids db \<longleftrightarrow>
     fid \<notin> fm_id ` set (tbl_file_metadata db) \<and> fid \<le> seq_file_metadata db \<and>
     (\<forall>c \<in> set (tbl_chunks db). file_metadata_id c \<noteq> fid) \<and>
     (\<forall>k \<in> cids. k \<notin> chunk_id ` set (tbl_chunks db) \<and> k \<le> seq_chunks db \<and>
                  k \<notin> emb_chunk_id ` set (tbl_embeddings db))"

definition file_synced :: "filesystem \<Rightarrow> nat \<Rightarrow> jsstring \<Rightarrow> database \<Rightarrow> bool" where
  "file_synced fs cid path db \<longleftrightarrow>
     (if \<not> existsSync fs path then True
      else case readFileSafe fs path of
             Inl e \<Rightarrow> True
           | Inr None \<Rightarrow> (cid, path) \<notin> file_key ` set (tbl_file_metadata db)
           | Inr (Some content) \<Rightarrow>
               (\<exists>r \<in> set (tbl_file_metadata db).
                  file_key r = (cid, path) \<and> file_hash r = hashContent fs content))"

definition collection_synced :: "filesystem \<Rightarrow> collection_row \<Rightarrow> database \<Rightarrow> bool" where
  "collection_synced fs coll db \<longleftrightarrow>
     (\<forall>r \<in> set (tbl_file_metadata db).
        collection_id r = col_id coll \<longrightarrow> file_path r \<in> set (discoverFiles fs coll)) \<and>
     (\<forall>f \<in> set (discoverFiles fs coll). file_synced fs (col_id coll) f db)"

definition stale :: "jsstring list \<Rightarrow> file_metadata_row \<Rightarrow> bool" where
  "stale files r \<longleftrightarrow> file_path r \<notin> set files"

definition chunk_ids_of :: "database \<Rightarrow> nat \<Rightarrow> nat set" where
  "chunk_ids_of db fid = chunk_id ` {c \<in> set (tbl_chunks db). file_metadata_id c = fid}"

definition removed_file :: "filesystem \<Rightarrow> collection_row \<Rightarrow> file_metadata_row \<Rightarrow> bool" where
  "removed_file fs coll r \<longleftrightarrow> collection_id r = col_id coll \<and> stale (discoverFiles fs coll) r"

definition example_fs :: filesystem where
  "example_fs =
     \<lparr>glob_sync = (\<lambda>base mask. [js ''/n/b.md'']),
      existsSync = (\<lambda>p. True),
      readFileSync = (\<lambda>p. Inr [104, 105]),
      utf8_toString = map (\<lambda>b. unat b),
      hashContent = (\<lambda>s. s)\<rparr>"

section \<open>Properties\<close>

subsection \<open>The byte codec of embeddings\<close>

lemma bytes_float_bytes:
  "bytes_float (ucast v) (ucast (drop_bit 8 v)) (ucast (drop_bit 16 v)) (ucast (drop_bit 24 v)) = v"
  unfolding bytes_float_def
proof (rule bit_word_eqI)
  fix n assume n: "n < LENGTH(32)"
  consider "n < 8" | "8 \<le> n" "n < 16" | "16 \<le> n" "n < 24" | "24 \<le> n"
    by linarith
  then show "bit (ucast (ucast v :: byte) OR push_bit 8 (ucast (ucast (drop_bit 8 v) :: byte)) OR
          push_bit 16 (ucast (ucast (drop_bit 16 v) :: byte)) OR
          push_bit 24 (ucast (ucast (drop_bit 24 v) :: byte)) :: float32) n = bit v n"
    using n by cases (auto simp: bit_simps)
qed

lemma or_and_absorb: "(y OR m) AND m = (m :: float32)"
  by (rule bit_word_eqI) (auto simp: bit_simps)

lemma isNaN32_or: "isNaN32 (x OR 0x7FC00000)"
proof -
  have c: "(0x7FC00000 :: float32) = 0x00400000 OR 0x7F800000" by simp
  have "x OR 0x7FC00000 = (x OR 0x00400000) OR (0x7F800000 :: float32)"
    unfolding c by (simp only: or.assoc)
  then have a: "(x OR 0x7FC00000) AND 0x7F800000 = (0x7F800000 :: float32)"
    by (simp only: or_and_absorb)
  have "bit ((x OR 0x7FC00000) AND (0x007FFFFF :: float32)) 22"
    by (simp add: bit_simps)
  then have "(x OR 0x7FC00000) AND (0x007FFFFF :: float32) \<noteq> 0"
    by auto
  with a show ?thesis by (simp add: isNaN32_def)
qed

lemma as_number_same: "same_float32 (as_number eng w) w"
  by (simp add: same_float32_def as_number_def isNaN32_or)

lemma as_number_id: "\<not> isNaN32 w \<Longrightarrow> as_number eng w = w"
  by (simp add: as_number_def)

lemma same_float32_trans: "same_float32 a b \<Longrightarrow> same_float32 b c \<Longrightarrow> same_float32 a c"
  by (auto simp: same_float32_def split: if_splits)

lemma finite_not_NaN: "float32_finite w \<Longrightarrow> \<not> isNaN32 w"
  by (simp add: float32_finite_def isNaN32_def)

lemma writeFloatLE_holds:
  assumes "k * 4 + 4 \<le> length buffer"
  shows "\<exists>b. writeFloatLE eng buffer v (k * 4) = Inr b \<and> length b = length buffer \<and>
             holds_float b k (as_number eng v) \<and>
             (\<forall>j. j \<noteq> k \<longrightarrow> (\<forall>w. holds_float buffer j w \<longrightarrow> holds_float b j w))"
proof -
  have "\<And>j d e. j \<noteq> k \<Longrightarrow> d < 4 \<Longrightarrow> e < 4 \<Longrightarrow> j * 4 + d \<noteq> k * 4 + e"
    by presburger
  from this[of _ 0 0] this[of _ 0 1] this[of _ 0 2] this[of _ 0 3]
       this[of _ 1 0] this[of _ 1 1] this[of _ 1 2] this[of _ 1 3]
       this[of _ 2 0] this[of _ 2 1] this[of _ 2 2] this[of _ 2 3]
       this[of _ 3 0] this[of _ 3 1] this[of _ 3 2] this[of _ 3 3]
  show ?thesis
    using assms by (simp add: writeFloatLE_def holds_float_def nth_list_update Let_def)
qed

lemma float32ArrayToBuffer_loop_holds:
  assumes "length buffer = length arr * 4" "i \<le> length arr"
    and "\<forall>k < i. holds_float buffer k (as_number eng (as_number eng (arr ! k)))"
  shows "\<exists>b. float32ArrayToBuffer_loop eng arr i buffer = Inr b \<and> length b = length buffer \<and>
             (\<forall>k < length arr. holds_float b k (as_number eng (as_number eng (arr ! k))))"
  using assms
proof (induction eng arr i buffer rule: float32ArrayToBuffer_loop.induct)
  case (1 eng arr i buffer)
  show ?case
  proof (cases "i < length arr")
    case False
    with "1.prems" show ?thesis
      by (subst float32ArrayToBuffer_loop.simps) simp
  next
    case True
    then have fit: "i * 4 + 4 \<le> length buffer"
      using "1.prems"(1) by simp
    from writeFloatLE_holds[OF fit, of eng "as_number eng (arr ! i)"] obtain b where
      b: "writeFloatLE eng buffer (as_number eng (arr ! i)) (i * 4) = Inr b" "length b = length buffer"
         "holds_float b i (as_number eng (as_number eng (arr ! i)))"
         "\<forall>j. j \<noteq> i \<longrightarrow> (\<forall>w. holds_float buffer j w \<longrightarrow> holds_float b j w)"
      by blast
    have inv: "\<forall>k < i + 1. holds_float b k (as_number eng (as_number eng (arr ! k)))"
    proof (intro allI impI)
      fix k assume "k < i + 1"
      then consider "k = i" | "k < i" by linarith
      then show "holds_float b k (as_number eng (as_number eng (arr ! k)))"
        using b(3,4) "1.prems"(3) by cases auto
    qed
    have "\<exists>b'. float32ArrayToBuffer_loop eng arr (i + 1) b = Inr b' \<and> length b' = length b \<and>
             (\<forall>k < length arr. holds_float b' k (as_number eng (as_number eng (arr ! k))))"
      using "1.IH"[OF True b(1)] b(2) "1.prems"(1) True inv by simp
    then show ?thesis
      using True b(1,2) by (subst float32ArrayToBuffer_loop.simps) auto
  qed
qed

lemma bufferToFloat32Array_loop_reads:
  assumes "length arr = length v" "length v * 4 \<le> length buffer"
    and "\<forall>k < length v. holds_float buffer k (v ! k)"
    and "take i arr = take i (map (\<lambda>w. as_number eng (as_number eng w)) v)"
  shows "bufferToFloat32Array_loop eng buffer i arr = Inr (map (\<lambda>w. as_number eng (as_number eng w)) v)"
  using assms
proof (induction eng buffer i arr rule: bufferToFloat32Array_loop.induct)
  case (1 eng buffer i arr)
  let ?r = "map (\<lambda>w. as_number eng (as_number eng w)) v"
  show ?case
  proof (cases "i < length arr")
    case False
    with "1.prems"(1,4) have "arr = ?r" by simp
    with False show ?thesis
      by (subst bufferToFloat32Array_loop.simps) simp
  next
    case True
    then have iv: "i < length v" using "1.prems"(1) by simp
    then have fit: "i * 4 + 4 \<le> length buffer"
      using "1.prems"(2) by simp
    have hf: "holds_float buffer i (v ! i)"
      using "1.prems"(3) iv by simp
    have rd: "readFloatLE eng buffer (i * 4) = Inr (as_number eng (v ! i))"
      using fit hf by (simp add: readFloatLE_def holds_float_def bytes_float_bytes)
    have tk: "take (i + 1) (arr[i := as_number eng (as_number eng (v ! i))]) = take (i + 1) ?r"
      using "1.prems"(4) True iv by (simp add: take_Suc_conv_app_nth)
    have "bufferToFloat32Array_loop eng buffer (i + 1) (arr[i := as_number eng (as_number eng (v ! i))]) = Inr ?r"
      using "1.IH"[OF True rd] "1.prems"(1,2,3) tk by simp
    then show ?thesis
      using True rd by (subst bufferToFloat32Array_loop.simps) simp
  qed
qed

lemma codec_roundtrip:
  "\<exists>buffer. float32ArrayToBuffer eng mem v = Inr buffer \<and> length buffer = length v * 4 \<and>
     (\<forall>k < length v. holds_float buffer k (as_number eng (as_number eng (v ! k)))) \<and>
     bufferToFloat32Array eng buffer =
       Inr (map (\<lambda>w. as_number eng (as_number eng (as_number eng (as_number eng w)))) v)"
proof -
  let ?u = "map (\<lambda>w. as_number eng (as_number eng w)) v"
  obtain b where b: "float32ArrayToBuffer eng mem v = Inr b" "length b = length v * 4"
      "\<forall>k < length v. holds_float b k (as_number eng (as_number eng (v ! k)))"
    using float32ArrayToBuffer_loop_holds[of "allocUnsafe mem (length v * 4)" v 0 eng]
    by (auto simp: float32ArrayToBuffer_def allocUnsafe_def)
  have "bufferToFloat32Array_loop eng b 0 (replicate (length b div 4) 0) =
          Inr (map (\<lambda>w. as_number eng (as_number eng w)) ?u)"
    by (rule bufferToFloat32Array_loop_reads) (use b in simp_all)
  then have "bufferToFloat32Array eng b =
       Inr (map (\<lambda>w. as_number eng (as_number eng (as_number eng (as_number eng w)))) v)"
    by (simp add: bufferToFloat32Array_def comp_def)
  with b show ?thesis by blast
qed

lemma same_float32_four:
  "same_float32 (as_number eng (as_number eng (as_number eng (as_number eng w)))) w"
  by (meson as_number_same same_float32_trans)

text \<open>
  Claim C10. Encoding a \<^verbatim>\<open>Float32Array\<close> with \<^verbatim>\<open>float32ArrayToBuffer\<close> never throws and gives
  a buffer of four bytes per element; decoding that buffer with \<^verbatim>\<open>bufferToFloat32Array\<close>
  gives an array of the same length that holds at every index the 32-bit float value of
  the original: the same bit pattern for every element that is not a NaN, and a NaN for
  a NaN (whose bits are the choice of the engine). This holds whatever the freshly
  allocated buffer held before, and for every engine.
\<close>

theorem float32_codec_roundtrip:
  "\<exists>buffer r. float32ArrayToBuffer eng mem v = Inr buffer \<and> length buffer = length v * 4 \<and>
     bufferToFloat32Array eng buffer = Inr r \<and> length r = length v \<and>
     list_all2 same_float32 r v \<and>
     (\<forall>i < length v. \<not> isNaN32 (v ! i) \<longrightarrow> r ! i = v ! i) \<and>
     (\<forall>i < length v. isNaN32 (v ! i) \<longrightarrow> isNaN32 (r ! i))"
proof -
  let ?r = "map (\<lambda>w. as_number eng (as_number eng (as_number eng (as_number eng w)))) v"
  from codec_roundtrip[of eng mem v] obtain buffer where
    b: "float32ArrayToBuffer eng mem v = Inr buffer" "length buffer = length v * 4"
       "bufferToFloat32Array eng buffer = Inr ?r"
    by blast
  have same: "list_all2 same_float32 ?r v"
    by (simp add: list_all2_conv_all_nth same_float32_four)
  have "\<forall>i < length v. \<not> isNaN32 (v ! i) \<longrightarrow> ?r ! i = v ! i"
    by (simp add: as_number_id)
  moreover have "\<forall>i < length v. isNaN32 (v ! i) \<longrightarrow> isNaN32 (?r ! i)"
    using same by (simp add: list_all2_conv_all_nth same_float32_def)
  ultimately show ?thesis
    using b same by (intro exI[of _ buffer] exI[of _ ?r]) simp
qed

lemma example_encoding:
  "float32ArrayToBuffer example_engine (\<lambda>i. 0) [0x3F800000, 0x7FA00001, 0xC0000000] =
     Inr [0, 0, 128, 63, 1, 0, 224, 127, 0, 0, 0, 192]"
  by (simp add: float32ArrayToBuffer_def allocUnsafe_def float32ArrayToBuffer_loop.simps
      writeFloatLE_def as_number_def isNaN32_def example_engine_def Let_def upt_rec)

lemma example_decoding:
  "bufferToFloat32Array example_engine [0, 0, 128, 63, 1, 0, 224, 127, 0, 0, 0, 192] =
     Inr [0x3F800000, 0x7FE00001, 0xC0000000]"
proof -
  have "length [0, 0, 128, 63, 1, 0, 224, 127, 0, 0, 0, 192 :: byte] div 4 = Suc (Suc (Suc 0))"
    by simp
  then have r: "replicate (length [0, 0, 128, 63, 1, 0, 224, 127, 0, 0, 0, 192 :: byte] div 4) (0 :: float32)
             = [0, 0, 0]"
    by (simp only: replicate.simps)
  show ?thesis
    unfolding bufferToFloat32Array_def r
    by (simp add: bufferToFloat32Array_loop.simps readFloatLE_def
        bytes_float_def as_number_def isNaN32_def example_engine_def)
qed

text \<open>
  An array with the signalling NaN \<open>0x7FA00001\<close> between \<open>1.0\<close> and \<open>- 2.0\<close>: on an engine
  that sets the quiet bit the NaN is stored as \<open>0x7FE00001\<close> and read back as such.
\<close>

theorem float32_codec_roundtrip_witness:
  "\<not> isNaN32 0x3F800000 \<and> isNaN32 0x7FA00001 \<and> \<not> isNaN32 0xC0000000 \<and>
   float32ArrayToBuffer example_engine (\<lambda>i. 0) [0x3F800000, 0x7FA00001, 0xC0000000] =
     Inr [0, 0, 128, 63, 1, 0, 224, 127, 0, 0, 0, 192] \<and>
   bufferToFloat32Array example_engine [0, 0, 128, 63, 1, 0, 224, 127, 0, 0, 0, 192] =
     Inr [0x3F800000, 0x7FE00001, 0xC0000000] \<and>
   (\<exists>r. bufferToFloat32Array example_engine [0, 0, 128, 63, 1, 0, 224, 127, 0, 0, 0, 192] = Inr r \<and>
      length r = 3 \<and> r ! 0 = 0x3F800000 \<and> isNaN32 (r ! 1) \<and> r ! 2 = 0xC0000000 \<and>
      list_all2 same_float32 r [0x3F800000, 0x7FA00001, 0xC0000000])"
proof -
  have n: "\<not> isNaN32 0x3F800000" "isNaN32 0x7FA00001" "\<not> isNaN32 0xC0000000"
    by (simp_all add: isNaN32_def)
  from float32_codec_roundtrip[of example_engine "\<lambda>i. 0" "[0x3F800000, 0x7FA00001, 0xC0000000]"]
  obtain r where
    r: "bufferToFloat32Array example_engine [0, 0, 128, 63, 1, 0, 224, 127, 0, 0, 0, 192] = Inr r"
       "length r = length [0x3F800000, 0x7FA00001, 0xC0000000 :: float32]"
       "list_all2 same_float32 r [0x3F800000, 0x7FA00001, 0xC0000000]"
       "\<forall>i < length [0x3F800000, 0x7FA00001, 0xC0000000 :: float32].
           \<not> isNaN32 ([0x3F800000, 0x7FA00001, 0xC0000000] ! i) \<longrightarrow>
           r ! i = [0x3F800000, 0x7FA00001, 0xC0000000] ! i"
       "\<forall>i < length [0x3F800000, 0x7FA00001, 0xC0000000 :: float32].
           isNaN32 ([0x3F800000, 0x7FA00001, 0xC0000000] ! i) \<longrightarrow> isNaN32 (r ! i)"
    unfolding example_encoding by auto
  from r(4) n(1) have r0: "r ! 0 = 0x3F800000" by force
  from r(4) n(3) have r2: "r ! 2 = 0xC0000000" by force
  from r(5) n(2) have r1: "isNaN32 (r ! 1)" by force
  show ?thesis
    using n example_encoding example_decoding r(1,2,3) r0 r1 r2 by simp
qed

subsection \<open>The chunker\<close>

lemma tiles_append: "tiles s (cs @ ds) e \<longleftrightarrow> (\<exists>m. tiles s cs m \<and> tiles m ds e)"
  by (induction cs arbitrary: s) auto

lemma js_trim_Nil: "js_trim s = [] \<longleftrightarrow> (\<forall>c \<in> set s. is_ws c)"
proof
  assume "js_trim s = []"
  then have "\<forall>c \<in> set (dropWhile is_ws s). is_ws c"
    by (simp add: js_trim_def)
  then have "dropWhile is_ws s = []"
    using hd_dropWhile[of is_ws s] hd_in_set[of "dropWhile is_ws s"] by blast
  then show "\<forall>c \<in> set s. is_ws c"
    by (simp add: dropWhile_eq_Nil_conv)
next
  assume "\<forall>c \<in> set s. is_ws c"
  then show "js_trim s = []"
    by (auto simp: js_trim_def dest: set_dropWhileD)
qed

lemma is_ws_nl: "is_ws 10"
  by (simp add: is_ws_def)

lemma join_nl_ws: "(\<forall>c \<in> set (join_nl ls). is_ws c) \<longleftrightarrow> (\<forall>l \<in> set ls. \<forall>c \<in> set l. is_ws c)"
  by (induction ls rule: join_nl.induct) (auto simp: is_ws_nl)

lemma isBlankLine_iff: "isBlankLine l \<longleftrightarrow> (\<forall>c \<in> set l. is_ws c)"
  by (simp add: isBlankLine_def js_trim_Nil)

lemma trim_join_Nil: "length (js_trim (join_nl ls)) = 0 \<longleftrightarrow> (\<forall>l \<in> set ls. isBlankLine l)"
  by (simp add: js_trim_Nil join_nl_ws isBlankLine_iff)

lemma blank_run_max_ge: "run \<le> blank_run_max ls run"
proof (induction ls arbitrary: run)
  case Nil
  show ?case by simp
next
  case (Cons l ls)
  have "run \<le> run + estimateTokens l" by simp
  also have "\<dots> \<le> blank_run_max ls (run + estimateTokens l)" by (rule Cons)
  finally show ?case by simp
qed

lemma blank_run_max_mono: "a \<le> b \<Longrightarrow> blank_run_max ls a \<le> blank_run_max ls b"
proof (induction ls arbitrary: a b)
  case Nil
  then show ?case by simp
next
  case (Cons l ls)
  show ?case
  proof (cases "isBlankLine l")
    case True
    then show ?thesis using Cons.IH[of "a + estimateTokens l" "b + estimateTokens l"] Cons.prems by simp
  next
    case False
    then show ?thesis using Cons.prems by (simp add: max.coboundedI1)
  qed
qed

lemma blank_run_max_blank:
  "\<forall>l \<in> set mid. isBlankLine l \<Longrightarrow>
     blank_run_max (mid @ post) run = blank_run_max post (run + sum_list (map estimateTokens mid))"
  by (induction mid arbitrary: run) (simp_all add: add.assoc)

lemma blank_run_max_suffix: "blank_run_max rest 0 \<le> blank_run_max (pre @ rest) run"
proof (induction pre arbitrary: run)
  case Nil
  show ?case by (simp add: blank_run_max_mono)
next
  case (Cons l pre)
  show ?case
    using Cons[of "run + estimateTokens l"] Cons[of 0] by (simp add: max.coboundedI2)
qed

lemma blank_infix_tokens:
  assumes "\<forall>l \<in> set (drop a (take i lines)). isBlankLine l"
  shows "sum_list (map estimateTokens (drop a (take i lines))) \<le> max_blank_run lines"
proof -
  have "lines = take a (take i lines) @ drop a (take i lines) @ drop i lines"
    by (metis append.assoc append_take_drop_id)
  then have "max_blank_run lines =
      blank_run_max (take a (take i lines) @ (drop a (take i lines) @ drop i lines)) 0"
    by (simp add: max_blank_run_def)
  moreover have "blank_run_max (drop a (take i lines) @ drop i lines) 0 \<le>
      blank_run_max (take a (take i lines) @ (drop a (take i lines) @ drop i lines)) 0"
    by (rule blank_run_max_suffix)
  moreover have "blank_run_max (drop a (take i lines) @ drop i lines) 0 =
      blank_run_max (drop i lines) (0 + sum_list (map estimateTokens (drop a (take i lines))))"
    by (rule blank_run_max_blank[OF assms])
  moreover have "sum_list (map estimateTokens (drop a (take i lines))) \<le>
      blank_run_max (drop i lines) (0 + sum_list (map estimateTokens (drop a (take i lines))))"
    using blank_run_max_ge[of "sum_list (map estimateTokens (drop a (take i lines)))" "drop i lines"]
    by simp
  ultimately show ?thesis by simp
qed

lemma pending_not_blank:
  assumes "max_blank_run lines < MIN_CHUNK_SIZE" "chunker_inv lines i st"
    and "MIN_CHUNK_SIZE \<le> currentTokens st"
  shows "\<not> (\<forall>l \<in> set (currentChunk st). isBlankLine l)"
proof
  assume "\<forall>l \<in> set (currentChunk st). isBlankLine l"
  then have "currentTokens st \<le> max_blank_run lines"
    using assms(2) blank_infix_tokens[of "chunkStartLine st - 1" i lines]
    by (simp add: chunker_inv_def)
  with assms(1,3) show False by simp
qed

lemma flushChunk_inv:
  assumes "chunker_inv lines k st" "\<not> (\<forall>l \<in> set (currentChunk st). isBlankLine l)"
  shows "chunker_inv lines k (flushChunk (Some (k + 1)) st)"
proof -
  from assms(2) have ne: "currentChunk st \<noteq> []" by auto
  have t: "length (js_trim (join_nl (currentChunk st))) \<noteq> 0"
    using assms(2) trim_join_Nil by blast
  show ?thesis
    using assms(1) ne t
    by (auto simp: chunker_inv_def flushChunk_def Let_def tiles_append)
qed

lemma push_line_inv:
  assumes "chunker_inv lines i st" "i < length lines"
  shows "chunker_inv lines (i + 1) (push_line (lines ! i) st)"
  using assms
  by (auto simp: chunker_inv_def push_line_def take_Suc_conv_app_nth)

lemma fence_loop_inv:
  assumes "chunker_inv lines j st"
  shows "chunker_inv lines (fst (fence_loop lines j st)) (snd (fence_loop lines j st)) \<and>
         fst (fence_loop lines j st) \<le> length lines \<and>
         (fst (fence_loop lines j st) < length lines \<longrightarrow> isCodeFence (lines ! fst (fence_loop lines j st))) \<and>
         (\<forall>k. j \<le> k \<and> k < fst (fence_loop lines j st) \<longrightarrow> \<not> isCodeFence (lines ! k))"
  using assms
proof (induction lines j st rule: fence_loop.induct)
  case (1 lines j st)
  show ?case
  proof (cases "j < length lines \<and> \<not> isCodeFence (lines ! j)")
    case True
    then have eq: "fence_loop lines j st = fence_loop lines (j + 1) (push_line (lines ! j) st)"
      by (subst fence_loop.simps) simp
    have "chunker_inv lines (j + 1) (push_line (lines ! j) st)"
      using push_line_inv "1.prems" True by blast
    from "1.IH"[OF True this] show ?thesis
      unfolding eq using True
      by (metis Suc_eq_plus1 Suc_leI le_neq_implies_less)
  next
    case False
    then have eq: "fence_loop lines j st = (j, st)"
      by (subst fence_loop.simps) auto
    show ?thesis
      unfolding eq using False "1.prems" by (auto simp: chunker_inv_def)
  qed
qed

lemma filter_infix_Nil:
  assumes "\<forall>k. a \<le> k \<and> k < j \<longrightarrow> \<not> P (lines ! k)" "j \<le> length lines"
  shows "filter P (take (j - a) (drop a lines)) = []"
proof -
  have "\<forall>x \<in> set (take (j - a) (drop a lines)). \<not> P x"
  proof
    fix x assume "x \<in> set (take (j - a) (drop a lines))"
    then obtain n where n: "n < length (take (j - a) (drop a lines))" "x = take (j - a) (drop a lines) ! n"
      by (metis in_set_conv_nth)
    then have "n < j - a" "a + n < length lines" by auto
    then have "x = lines ! (a + n)" using n by simp
    then show "\<not> P x" using assms(1) \<open>n < j - a\<close> by simp
  qed
  then show ?thesis by (simp add: filter_empty_conv)
qed

lemma fence_parity:
  assumes ev: "even (length (filter P (drop i lines)))" and i: "i < length lines" and Pi: "P (lines ! i)"
    and j: "i + 1 \<le> j" "j \<le> length lines" "j < length lines \<longrightarrow> P (lines ! j)"
    and no: "\<forall>k. i + 1 \<le> k \<and> k < j \<longrightarrow> \<not> P (lines ! k)"
  shows "j < length lines \<and> even (length (filter P (drop (j + 1) lines)))"
proof -
  have d1: "drop i lines = lines ! i # drop (i + 1) lines"
    using i by (simp add: Cons_nth_drop_Suc)
  have d2: "drop (i + 1) lines = take (j - (i + 1)) (drop (i + 1) lines) @ drop j lines"
    using j(1) by (metis append_take_drop_id drop_drop le_add_diff_inverse2)
  have "filter P (drop (i + 1) lines) = filter P (drop j lines)"
    using filter_infix_Nil[OF no j(2)] by (subst d2) simp
  with ev d1 Pi have odd: "odd (length (filter P (drop j lines)))"
    by simp
  then have jl: "j < length lines"
    by (cases "j < length lines") auto
  then have "drop j lines = lines ! j # drop (j + 1) lines"
    by (simp add: Cons_nth_drop_Suc)
  with odd j(3) jl show ?thesis by simp
qed

lemma MIN_le_TARGET: "MIN_CHUNK_SIZE \<le> TARGET_CHUNK_SIZE"
  by (simp add: MIN_CHUNK_SIZE_def TARGET_CHUNK_SIZE_def)

lemma chunk_loop_done: "\<not> i < length lines \<Longrightarrow> chunk_loop lines i st = st"
  by (subst chunk_loop.simps) (simp only: if_False)

lemma chunk_loop_plain:
  assumes "i < length lines" "\<not> isCodeFence (lines ! i)"
  shows "chunk_loop lines i st =
     (let line = lines ! i;
          st1 = (if isHeading line \<and> length (currentChunk st) > 0 \<and> currentTokens st \<ge> MIN_CHUNK_SIZE
                   then flushChunk (Some (i + 1)) st else st);
          st2 = push_line line st1;
          st3 = (if currentTokens st2 \<ge> TARGET_CHUNK_SIZE \<and>
                          (isBlankLine line \<or> isHorizontalRule line \<or> i = length lines - 1)
                       then flushChunk (Some (i + 2)) st2 else st2)
      in chunk_loop lines (i + 1) st3)"
  by (subst chunk_loop.simps) (simp only: assms if_True if_False Let_def)

lemma chunk_loop_fence:
  assumes "i < length lines" "isCodeFence (lines ! i)"
  shows "chunk_loop lines i st =
     (let line = lines ! i;
          st1 = (if isHeading line \<and> length (currentChunk st) > 0 \<and> currentTokens st \<ge> MIN_CHUNK_SIZE
                   then flushChunk (Some (i + 1)) st else st);
          st2 = push_line line st1;
          j = fst (fence_loop lines (i + 1) st2);
          st3 = snd (fence_loop lines (i + 1) st2);
          st4 = (if j < length lines then push_line (lines ! j) st3 else st3);
          i' = (if j < length lines then j else i);
          st5 = (if currentTokens st4 \<ge> TARGET_CHUNK_SIZE then flushChunk (Some (i' + 2)) st4 else st4)
      in chunk_loop lines (i' + 1) st5)"
  by (subst chunk_loop.simps) (simp only: assms if_True if_False Let_def)

lemma chunk_loop_inv:
  assumes "max_blank_run lines < MIN_CHUNK_SIZE" "chunker_inv lines i st"
    and "even (length (filter isCodeFence (drop i lines)))"
  shows "chunker_inv lines (length lines) (chunk_loop lines i st)"
  using assms
proof (induction lines i st rule: chunk_loop.induct)
  case (1 lines i st)
  note bt = "1.prems"(1)
  show ?case
  proof (cases "i < length lines")
    case False
    then have "chunk_loop lines i st = st" by (rule chunk_loop_done)
    moreover have "i = length lines" using False "1.prems"(2) by (simp add: chunker_inv_def)
    ultimately show ?thesis using "1.prems"(2) by simp
  next
    case True
    define line where "line = lines ! i"
    define st1 where "st1 = (if isHeading line \<and> length (currentChunk st) > 0 \<and> currentTokens st \<ge> MIN_CHUNK_SIZE
                   then flushChunk (Some (i + 1)) st else st)"
    define st2 where "st2 = push_line line st1"
    have inv1: "chunker_inv lines i st1"
      unfolding st1_def using "1.prems"(2) flushChunk_inv pending_not_blank[OF bt] by simp
    have inv2: "chunker_inv lines (i + 1) st2"
      unfolding st2_def line_def using push_line_inv[OF inv1 True] .
    show ?thesis
    proof (cases "isCodeFence line")
      case fence: True
      define j where "j = fst (fence_loop lines (i + 1) st2)"
      define st3 where "st3 = snd (fence_loop lines (i + 1) st2)"
      define st4 where "st4 = (if j < length lines then push_line (lines ! j) st3 else st3)"
      define i' where "i' = (if j < length lines then j else i)"
      define st5 where "st5 = (if currentTokens st4 \<ge> TARGET_CHUNK_SIZE then flushChunk (Some (i' + 2)) st4 else st4)"
      have eq: "chunk_loop lines i st = chunk_loop lines (i' + 1) st5"
        using chunk_loop_fence[OF True fence[unfolded line_def], of st]
        by (simp only: Let_def line_def st1_def st2_def j_def st3_def st4_def i'_def st5_def)
      from fence_loop_inv[OF inv2] have
        inv3: "chunker_inv lines j st3" and jl: "j \<le> length lines"
        and jf: "j < length lines \<longrightarrow> isCodeFence (lines ! j)"
        and no: "\<forall>k. i + 1 \<le> k \<and> k < j \<longrightarrow> \<not> isCodeFence (lines ! k)"
        unfolding j_def st3_def by blast+
      have ij: "i + 1 \<le> j"
        unfolding j_def by (rule fence_loop_ge)
      from fence_parity[OF "1.prems"(3) True _ ij jl jf no] fence
      have jlt: "j < length lines" and ev: "even (length (filter isCodeFence (drop (j + 1) lines)))"
        by (simp_all add: line_def)
      have i'j: "i' = j" using jlt by (simp add: i'_def)
      have inv4: "chunker_inv lines (j + 1) st4"
        using push_line_inv[OF inv3 jlt] jlt by (simp add: st4_def)
      have inv5: "chunker_inv lines (j + 1) st5"
        unfolding st5_def i'j
        using inv4 flushChunk_inv[OF inv4] pending_not_blank[OF bt inv4] MIN_le_TARGET
        by (auto simp: numeral_2_eq_2)
      have "chunker_inv lines (length lines) (chunk_loop lines (i' + 1) st5)"
        using "1.IH"(1)[OF True line_def st1_def st2_def fence j_def st3_def st4_def i'_def st5_def bt]
          inv5 ev i'j by simp
      then show ?thesis by (simp add: eq)
    next
      case nofence: False
      define st3 where "st3 = (if currentTokens st2 \<ge> TARGET_CHUNK_SIZE \<and>
                          (isBlankLine line \<or> isHorizontalRule line \<or> i = length lines - 1)
                       then flushChunk (Some (i + 2)) st2 else st2)"
      have eq: "chunk_loop lines i st = chunk_loop lines (i + 1) st3"
        using chunk_loop_plain[OF True nofence[unfolded line_def], of st]
        by (simp only: Let_def line_def st1_def st2_def st3_def)
      have inv3: "chunker_inv lines (i + 1) st3"
        unfolding st3_def
        using inv2 flushChunk_inv[OF inv2] pending_not_blank[OF bt inv2] MIN_le_TARGET
        by (auto simp: numeral_2_eq_2)
      have "drop i lines = lines ! i # drop (i + 1) lines"
        using True by (simp add: Cons_nth_drop_Suc)
      with "1.prems"(3) nofence have ev: "even (length (filter isCodeFence (drop (i + 1) lines)))"
        by (simp add: line_def)
      have "chunker_inv lines (length lines) (chunk_loop lines (i + 1) st3)"
        using "1.IH"(2)[OF True line_def st1_def st2_def nofence st3_def bt inv3 ev] .
      then show ?thesis by (simp add: eq)
    qed
  qed
qed

lemma split_nl_ne: "split_nl s \<noteq> []"
  by (induction s) (auto split: list.splits)

lemma split_nl_line: "10 \<notin> set l \<Longrightarrow> split_nl (l @ 10 # rest) = l # split_nl rest"
  by (induction l) (auto split: list.splits)

lemma split_nl_last: "10 \<notin> set l \<Longrightarrow> split_nl l = [l]"
  by (induction l) (auto split: list.splits)

lemma extend_fields:
  "startLine (chunk.extend c m) = startLine c" "endLine (chunk.extend c m) = endLine c"
  "chunkIndex (chunk.extend c \<lparr>filePath = p, chunkIndex = n\<rparr>) = n"
  by (simp_all add: chunk.extend_def)

lemma tiles_extend: "tiles s (map (\<lambda>(index, c). chunk.extend c (m index)) ics) e = tiles s (map snd ics) e"
proof (induction ics arbitrary: s)
  case Nil
  show ?case by simp
next
  case (Cons a ics)
  obtain n c where a: "a = (n, c)" by (cases a)
  show ?case using Cons by (simp add: a extend_fields)
qed

lemma tiles_chunkFile: "tiles s (chunkFile path content) e = tiles s (chunkMarkdown content) e"
  unfolding chunkFile_def by (simp add: tiles_extend map_snd_enumerate)

lemma chunkIndex_extend:
  "map chunkIndex (map (\<lambda>(index, c). chunk.extend c \<lparr>filePath = path, chunkIndex = index\<rparr>) ics)
     = map fst ics"
proof (induction ics)
  case Nil
  show ?case by simp
next
  case (Cons a ics)
  obtain n c where a: "a = (n, c)" by (cases a)
  show ?case using Cons by (simp add: a extend_fields)
qed

lemma chunkIndex_chunkFile:
  "map chunkIndex (chunkFile path content) = [0..<length (chunkFile path content)]"
  by (simp only: chunkFile_def chunkIndex_extend map_fst_enumerate length_map length_enumerate add_0)

lemma init_inv:
  "chunker_inv lines 0 \<lparr>chunks = [], currentChunk = [], currentTokens = 0, chunkStartLine = 1\<rparr>"
  by (simp add: chunker_inv_def)

lemma final_flush:
  assumes inv: "chunker_inv lines (length lines) st" and ne: "lines \<noteq> []"
  shows "\<exists>M. M \<le> length lines \<and> tiles 1 (chunks (flushChunk None st)) (M + 1) \<and>
             (\<forall>k. M \<le> k \<and> k < length lines \<longrightarrow> isBlankLine (lines ! k)) \<and>
             (\<not> isBlankLine (last lines) \<longrightarrow> M = length lines)"
proof (cases "\<forall>l \<in> set (currentChunk st). isBlankLine l")
  case False
  then have ne': "currentChunk st \<noteq> []" by auto
  have t: "length (js_trim (join_nl (currentChunk st))) \<noteq> 0"
    using False trim_join_Nil by blast
  have "tiles 1 (chunks (flushChunk None st)) (length lines + 1)"
    using inv ne' t by (auto simp: chunker_inv_def flushChunk_def Let_def tiles_append)
  then show ?thesis by auto
next
  case True
  define M where "M = chunkStartLine st - 1"
  have c1: "1 \<le> chunkStartLine st" "chunkStartLine st + length (currentChunk st) = length lines + 1"
      "currentChunk st = drop (chunkStartLine st - 1) (take (length lines) lines)"
    using inv by (simp_all add: chunker_inv_def)
  have cs: "chunkStartLine st = M + 1" "M \<le> length lines" "currentChunk st = drop M lines"
    using c1 by (simp_all add: M_def)
  have "length (js_trim (join_nl (currentChunk st))) = 0"
    using True trim_join_Nil[of "currentChunk st"] by blast
  then have same: "chunks (flushChunk None st) = chunks st"
    by (simp add: flushChunk_def Let_def)
  have t: "tiles 1 (chunks (flushChunk None st)) (M + 1)"
    using inv cs(1) by (simp add: same chunker_inv_def)
  have bl: "\<forall>k. M \<le> k \<and> k < length lines \<longrightarrow> isBlankLine (lines ! k)"
  proof (intro allI impI)
    fix k assume k: "M \<le> k \<and> k < length lines"
    then have "lines ! k = drop M lines ! (k - M)" "k - M < length (drop M lines)"
      by auto
    then have "lines ! k \<in> set (drop M lines)"
      by (simp only: nth_mem)
    then show "isBlankLine (lines ! k)" using True cs(3) by simp
  qed
  have "\<not> isBlankLine (last lines) \<longrightarrow> M = length lines"
  proof (intro impI, rule ccontr)
    assume nb: "\<not> isBlankLine (last lines)" and "M \<noteq> length lines"
    then have "M \<le> length lines - 1 \<and> length lines - 1 < length lines"
      using cs(2) ne by (cases lines) simp_all
    then have "isBlankLine (lines ! (length lines - 1))"
      using bl[THEN spec, of "length lines - 1"] by simp
    then show False
      using nb ne by (simp add: last_conv_nth)
  qed
  then show ?thesis
    using t bl cs(2) by (intro exI[of _ M]) simp
qed

text \<open>
  Claim C5, as amended. Let a document have \<open>N\<close> lines and an even number of code fence
  lines (every opened fence is closed), and let every run of consecutive
  white-space-only lines carry fewer than \<open>MIN_CHUNK_SIZE\<close> tokens. Then the line ranges of its chunks, in sequence
  order, start at line 1, are non-empty, each starts right after the previous one ends
  (no gap, no overlap), and they end at a line \<open>M \<le> N\<close> such that the lines after \<open>M\<close>
  are all white-space-only; \<open>M = N\<close> when the last line is not white-space-only. The
  chunk indices are \<open>0, 1, 2, \<dots>\<close> in sequence order.
\<close>

theorem chunk_ranges_partition:
  assumes "even (length (filter isCodeFence (split_nl content)))"
    and "max_blank_run (split_nl content) < MIN_CHUNK_SIZE"
  shows "\<exists>M. M \<le> length (split_nl content) \<and> tiles 1 (chunkFile path content) (M + 1) \<and>
             (\<forall>k. M \<le> k \<and> k < length (split_nl content) \<longrightarrow> isBlankLine (split_nl content ! k)) \<and>
             (\<not> isBlankLine (last (split_nl content)) \<longrightarrow> M = length (split_nl content)) \<and>
             map chunkIndex (chunkFile path content) = [0..<length (chunkFile path content)]"
proof -
  have "chunker_inv (split_nl content) (length (split_nl content))
          (chunk_loop (split_nl content) 0
             \<lparr>chunks = [], currentChunk = [], currentTokens = 0, chunkStartLine = 1\<rparr>)"
    using chunk_loop_inv[OF assms(2) init_inv] assms(1) by simp
  from final_flush[OF this split_nl_ne] show ?thesis
    by (simp add: tiles_chunkFile chunkMarkdown_def chunkIndex_chunkFile)
qed

lemma long_line:
  "\<not> isHeading (replicate 1200 97)" "\<not> isCodeFence (replicate 1200 97)"
  "\<not> isHorizontalRule (replicate 1200 97)" "\<not> isBlankLine (replicate 1200 97)"
  "estimateTokens (replicate 1200 97) = 300" "10 \<notin> set (replicate 1200 (97::nat))"
proof -
  have "take 3 (replicate 1200 (97::nat)) = [97, 97, 97]"
    by (simp add: numeral_3_eq_3)
  then show "\<not> isCodeFence (replicate 1200 97)"
    by (simp add: isCodeFence_def)
  show "\<not> isHeading (replicate 1200 97)"
    by (simp add: isHeading_def takeWhile_replicate)
  show "\<not> isHorizontalRule (replicate 1200 97)"
    by (simp add: isHorizontalRule_def list_all_iff)
  show "\<not> isBlankLine (replicate 1200 97)"
    by (simp add: isBlankLine_iff is_ws_def)
  show "estimateTokens (replicate 1200 97) = 300"
    by (simp add: estimateTokens_def)
  show "10 \<notin> set (replicate 1200 (97::nat))"
    by simp
qed

lemma short_line:
  "\<not> isHeading []" "\<not> isCodeFence []" "\<not> isHorizontalRule []" "isBlankLine []" "estimateTokens [] = 0"
  "\<not> isHeading [32]" "\<not> isCodeFence [32]" "\<not> isHorizontalRule [32]" "isBlankLine [32]" "estimateTokens [32] = 1"
  by (simp_all add: isHeading_def isCodeFence_def isHorizontalRule_def isBlankLine_iff is_ws_def estimateTokens_def)

lemma doc2_split: "split_nl (replicate 1200 97 @ 10 # 10 # [32]) = [replicate 1200 97, [], [32]]"
  using split_nl_line[of "replicate 1200 97" "10 # [32]"] split_nl_line[of "[]" "[32]"] split_nl_last[of "[32]"]
  by simp

lemma doc2_eval:
  "map (\<lambda>c. (startLine c, endLine c)) (chunkMarkdown (replicate 1200 97 @ 10 # 10 # [32])) = [(1, 2)]"
  unfolding chunkMarkdown_def doc2_split
  by (simp add: chunk_loop.simps Let_def long_line short_line flushChunk_def push_line_def
        js_trim_Nil is_ws_def TARGET_CHUNK_SIZE_def MIN_CHUNK_SIZE_def)

lemma blank_long_line:
  "\<not> isCodeFence (replicate 396 32)" "isBlankLine (replicate 396 32)"
  "estimateTokens (replicate 396 32) = 99" "10 \<notin> set (replicate 396 (32::nat))"
proof -
  have "take 3 (replicate 396 (32::nat)) = [32, 32, 32]"
    by (simp add: numeral_3_eq_3)
  then show "\<not> isCodeFence (replicate 396 32)"
    by (simp add: isCodeFence_def)
  show "isBlankLine (replicate 396 32)"
    by (simp add: isBlankLine_iff is_ws_def)
  show "estimateTokens (replicate 396 32) = 99"
    by (simp add: estimateTokens_def)
  show "10 \<notin> set (replicate 396 (32::nat))"
    by simp
qed

lemma letter_lines:
  "\<not> isCodeFence [120]" "\<not> isCodeFence [121]" "\<not> isBlankLine [120]" "\<not> isBlankLine [121]"
  by (simp_all add: isCodeFence_def isBlankLine_iff is_ws_def)

lemma doc3_split:
  "split_nl (replicate 396 32 @ 10 # 120 # 10 # replicate 396 32 @ 10 # [121])
     = [replicate 396 32, [120], replicate 396 32, [121]]"
  using split_nl_line[of "replicate 396 32" "120 # 10 # replicate 396 32 @ 10 # [121]"]
    split_nl_line[of "[120]" "replicate 396 32 @ 10 # [121]"]
    split_nl_line[of "replicate 396 32" "[121]"] split_nl_last[of "[121]"]
  by (simp add: blank_long_line)

lemma doc3_hyps:
  "even (length (filter isCodeFence
      (split_nl (replicate 396 32 @ 10 # 120 # 10 # replicate 396 32 @ 10 # [121]))))"
  "max_blank_run (split_nl (replicate 396 32 @ 10 # 120 # 10 # replicate 396 32 @ 10 # [121]))
     < MIN_CHUNK_SIZE"
  "sum_list (map estimateTokens (filter isBlankLine
      (split_nl (replicate 396 32 @ 10 # 120 # 10 # replicate 396 32 @ 10 # [121])))) = 198"
  "\<not> isBlankLine (last (split_nl (replicate 396 32 @ 10 # 120 # 10 # replicate 396 32 @ 10 # [121])))"
  "length (split_nl (replicate 396 32 @ 10 # 120 # 10 # replicate 396 32 @ 10 # [121])) = 4"
  unfolding doc3_split
  by (simp_all add: blank_long_line letter_lines max_blank_run_def MIN_CHUNK_SIZE_def)

text \<open>
  A document of four lines, two of them of 396 spaces: each run of white-space-only
  lines carries 99 tokens, all of them together 198.
\<close>

theorem chunk_ranges_partition_witness:
  "even (length (filter isCodeFence
      (split_nl (replicate 396 32 @ 10 # 120 # 10 # replicate 396 32 @ 10 # [121])))) \<and>
   max_blank_run (split_nl (replicate 396 32 @ 10 # 120 # 10 # replicate 396 32 @ 10 # [121]))
     < MIN_CHUNK_SIZE \<and>
   sum_list (map estimateTokens (filter isBlankLine
      (split_nl (replicate 396 32 @ 10 # 120 # 10 # replicate 396 32 @ 10 # [121])))) = 198 \<and>
   length (split_nl (replicate 396 32 @ 10 # 120 # 10 # replicate 396 32 @ 10 # [121])) = 4 \<and>
   tiles 1 (chunkFile (js ''a.md'') (replicate 396 32 @ 10 # 120 # 10 # replicate 396 32 @ 10 # [121]))
     (4 + 1) \<and>
   map chunkIndex (chunkFile (js ''a.md'') (replicate 396 32 @ 10 # 120 # 10 # replicate 396 32 @ 10 # [121]))
     = [0..<length (chunkFile (js ''a.md'')
           (replicate 396 32 @ 10 # 120 # 10 # replicate 396 32 @ 10 # [121]))]"
proof -
  from chunk_ranges_partition[OF doc3_hyps(1,2), of "js ''a.md''"] obtain M where
    M: "tiles 1 (chunkFile (js ''a.md'') (replicate 396 32 @ 10 # 120 # 10 # replicate 396 32 @ 10 # [121]))
          (M + 1)"
       "\<not> isBlankLine (last (split_nl (replicate 396 32 @ 10 # 120 # 10 # replicate 396 32 @ 10 # [121])))
          \<longrightarrow> M = length (split_nl (replicate 396 32 @ 10 # 120 # 10 # replicate 396 32 @ 10 # [121]))"
       "map chunkIndex (chunkFile (js ''a.md'') (replicate 396 32 @ 10 # 120 # 10 # replicate 396 32 @ 10 # [121]))
          = [0..<length (chunkFile (js ''a.md'')
                (replicate 396 32 @ 10 # 120 # 10 # replicate 396 32 @ 10 # [121]))]"
    by blast
  from M(2) doc3_hyps(4,5) have "M = 4" by simp
  with M(1,3) doc3_hyps show ?thesis by simp
qed

lemma ranges_extend:
  "map (\<lambda>c. (startLine c, endLine c)) (map (\<lambda>(index, c). chunk.extend c (m index)) ics)
     = map (\<lambda>c. (startLine c, endLine c)) (map snd ics)"
proof (induction ics)
  case Nil
  show ?case by simp
next
  case (Cons a ics)
  obtain n c where a: "a = (n, c)" by (cases a)
  show ?case using Cons by (simp add: a extend_fields)
qed

lemma ranges_chunkFile:
  "map (\<lambda>c. (startLine c, endLine c)) (chunkFile path content)
     = map (\<lambda>c. (startLine c, endLine c)) (chunkMarkdown content)"
  unfolding chunkFile_def by (simp only: ranges_extend map_snd_enumerate)

lemma tiles_single:
  assumes "map (\<lambda>c. (startLine c, endLine c)) cs = [(a, b)]"
  shows "tiles s cs e \<longleftrightarrow> a = s \<and> s \<le> b \<and> b + 1 = e"
proof -
  from assms obtain c where "cs = [c]" "startLine c = a" "endLine c = b"
    by (cases cs) simp_all
  then show ?thesis by (simp add: eq_commute)
qed

text \<open>
  Claim C5 as stated fails on a document with no heading and no fence: a line of 1200
  letters, an empty line and a line holding one space. The document has three lines; the
  only chunk covers lines 1 to 2, and the pending white-space-only chunk of line 3 is
  discarded, so the ranges do not cover \<open>1..3\<close>.
\<close>

theorem chunk_ranges_cover_counterexample:
  "length (split_nl (replicate 1200 97 @ 10 # 10 # [32])) = 3 \<and>
   filter isHeading (split_nl (replicate 1200 97 @ 10 # 10 # [32])) = [] \<and>
   filter isCodeFence (split_nl (replicate 1200 97 @ 10 # 10 # [32])) = [] \<and>
   map (\<lambda>c. (startLine c, endLine c)) (chunkFile (js ''a.md'') (replicate 1200 97 @ 10 # 10 # [32]))
     = [(1, 2)] \<and>
   \<not> tiles 1 (chunkFile (js ''a.md'') (replicate 1200 97 @ 10 # 10 # [32])) (3 + 1)"
proof -
  have r: "map (\<lambda>c. (startLine c, endLine c)) (chunkFile (js ''a.md'') (replicate 1200 97 @ 10 # 10 # [32]))
     = [(1, 2)]"
    using doc2_eval by (simp only: ranges_chunkFile)
  show ?thesis
    using r by (simp add: tiles_single[OF r] doc2_split long_line short_line)
qed

lemmas chunker_eval =
  chunkFile_def chunkMarkdown_def chunk_loop.simps fence_loop.simps Let_def flushChunk_def push_line_def
  isHeading_def isCodeFence_def isHorizontalRule_def isBlankLine_def
  estimateTokens_def TARGET_CHUNK_SIZE_def MIN_CHUNK_SIZE_def is_ws_def js_def
  chunk.extend_def js_trim_def

text \<open>
  Claim C4 on the code: a document of three lines whose first line opens a fence that is
  never closed. The inner loop appends lines 2 and 3 to the chunk, the loop variable
  stays on the opening fence, and the outer loop appends lines 2 and 3 again: the single
  chunk holds each of them twice and ends at line 5 of a document of 3 lines.
\<close>

theorem unterminated_fence_repeats_lines:
  "split_nl (js ''```'' @ 10 # js ''a'' @ 10 # js ''b'') = [js ''```'', js ''a'', js ''b''] \<and>
   chunkFile (js ''n.md'') (js ''```'' @ 10 # js ''a'' @ 10 # js ''b'') =
     [\<lparr>text_of = js ''```'' @ 10 # js ''a'' @ 10 # js ''b'' @ 10 # js ''a'' @ 10 # js ''b'',
       startLine = 1, endLine = 5, tokenCount = 3, filePath = js ''n.md'', chunkIndex = 0\<rparr>]"
  by (simp add: chunker_eval)

subsection \<open>Lexical search\<close>






lemma ws_words_dropWhile: "ws_words (dropWhile is_ws s) = ws_words s"
proof -
  have "dropWhile is_ws (dropWhile is_ws s) = dropWhile is_ws s"
    by (metis dropWhile_idem)
  then show ?thesis
    by (subst (1 2) ws_words.simps) (simp only: Let_def)
qed









lemma foldr_max_Max: "foldr max xs (a::real) = Max (insert a (set xs))"
proof (induction xs)
  case Nil
  show ?case by simp
next
  case (Cons x xs)
  then show ?case by (simp add: Max_insert[symmetric] insert_commute del: Max_insert)
qed

lemma zip_map_same: "zip xs (map f xs) = map (\<lambda>x. (x, f x)) xs"
  by (induction xs) simp_all

lemma searchBM25_rows:
  assumes "escapeFtsQuery query \<noteq> []"
    and "sql_bm25 env db (escapeFtsQuery query) (collectionName options) (clampLimit (limit_or_10 options)) = Inr rows"
  shows "searchBM25 env db query options =
     (Inr (map (\<lambda>((c, fm, col), raw).
              \<lparr>chunkId = chunk_id c, res_text = chunk_text c, res_filePath = file_path fm,
               res_startLine = start_line c, res_endLine = end_line c, collection = col_name col,
               score = \<bar>raw\<bar> / Max (insert 1 ((\<lambda>r. \<bar>snd r\<bar>) ` set rows)), rawScore = raw\<rparr>) rows),
      [FtsQuery (escapeFtsQuery query)])"
  using assms
  by (simp add: searchBM25_def Let_def zip_map_same foldr_max_Max split_def comp_def)






lemmas search_eval =
  searchBM25_def escapeFtsQuery_def fts_tokens_def split_ws.simps js_trim_def is_ws_def
  escape_quotes_def js_def sql_bm25_def chunk_joins_def example_db_def example_env_def
  default_options_def clampLimit_def limit_or_10_def truthy_def Let_def




text \<open>
  Claim C9. When the count query finds no embedding for the collection filter, vector
  search returns the empty result (not an error) and its only call is the count query:
  the embedding client is not asked for the query's vector.
\<close>

theorem vector_search_no_embeddings:
  assumes "sql_count_embeddings db (collectionName options) = 0"
  shows "searchVector env db query options = (Inr [], [CountEmbeddings]) \<and>
         (\<forall>q. EmbeddingRequest q \<notin> set (snd (searchVector env db query options)))"
  using assms by (simp add: searchVector_def Let_def)

theorem vector_search_no_embeddings_witness:
  "sql_count_embeddings example_db (collectionName default_options) = 0 \<and>
   searchVector example_env example_db (js ''foo'') default_options = (Inr [], [CountEmbeddings]) \<and>
   (\<forall>q. EmbeddingRequest q \<notin> set (snd (searchVector example_env example_db (js ''foo'') default_options)))"
proof -
  have h: "sql_count_embeddings example_db (collectionName default_options) = 0"
    by (simp add: sql_count_embeddings_def truthy_def default_options_def example_db_def)
  from vector_search_no_embeddings[OF h] h show ?thesis by blast
qed

subsection \<open>Vector search\<close>

lemma clampLimit_bounds: "1 \<le> clampLimit l \<and> clampLimit l \<le> 100"
proof -
  have "1 \<le> nat (max 1 (min 100 z)) \<and> nat (max 1 (min 100 z)) \<le> 100" for z :: int
    by auto
  then show ?thesis
    by (simp only: clampLimit_def Let_def)
qed

lemma min_index_loop_min:
  assumes "m < length tops" "i \<le> length tops" "\<forall>j < i. score (tops ! m) \<le> score (tops ! j)"
  shows "min_index_loop tops i m < length tops \<and>
         (\<forall>j < length tops. score (tops ! min_index_loop tops i m) \<le> score (tops ! j))"
  using assms
proof (induction tops i m rule: min_index_loop.induct)
  case (1 tops i m)
  show ?case
  proof (cases "i < length tops")
    case False
    with "1.prems" have "i = length tops" by simp
    with "1.prems" False show ?thesis
      by (subst (1 2) min_index_loop.simps) simp
  next
    case True
    define m' where "m' = (if score (tops ! i) < score (tops ! m) then i else m)"
    have a: "m' < length tops" using True "1.prems"(1) by (simp add: m'_def)
    have b: "\<forall>j < i + 1. score (tops ! m') \<le> score (tops ! j)"
    proof (intro allI impI)
      fix j assume "j < i + 1"
      then consider "j < i" | "j = i" by linarith
      then show "score (tops ! m') \<le> score (tops ! j)"
        using "1.prems"(3) by cases (auto simp: m'_def intro: order_trans less_imp_le)
    qed
    have "min_index_loop tops (i + 1) m' < length tops \<and>
         (\<forall>j < length tops. score (tops ! min_index_loop tops (i + 1) m') \<le> score (tops ! j))"
      using "1.IH"[OF True] a b True by (simp add: m'_def)
    moreover have "min_index_loop tops i m = min_index_loop tops (i + 1) m'"
      using True by (subst min_index_loop.simps) (simp add: m'_def)
    ultimately show ?thesis by simp
  qed
qed

lemma min_index:
  assumes "tops \<noteq> []"
  shows "min_index_loop tops 1 0 < length tops \<and>
         (\<forall>y \<in> set tops. score (tops ! min_index_loop tops 1 0) \<le> score y)"
proof -
  have "0 < length tops" "1 \<le> length tops" using assms by (simp_all add: Suc_le_eq)
  from min_index_loop_min[OF this] show ?thesis
    by (auto simp: in_set_conv_nth)
qed

lemma admit_top_k:
  assumes K: "1 \<le> K" and inv: "top_k_of K seen tops"
  shows "top_k_of K (seen @ [e]) (admit K e tops)"
proof -
  from inv obtain rest where
    len: "length tops = min K (length seen)" and
    ms: "mset seen = mset tops + mset rest" and
    dom: "\<forall>x \<in> set rest. \<forall>y \<in> set tops. score x \<le> score y"
    unfolding top_k_of_def by blast
  have sz: "length seen = length tops + length rest"
    using ms by (metis length_append mset_append mset_eq_length)
  show ?thesis
  proof (cases "length tops < K")
    case True
    with len sz have "length rest = 0" by (simp add: min_def split: if_splits)
    then have "rest = []" by simp
    with ms True len show ?thesis
      unfolding top_k_of_def admit_def
      by (auto intro!: exI[of _ "[]"])
  next
    case False
    with len have lenK: "length tops = K" "K \<le> length seen" by simp_all
    with K have ne: "tops \<noteq> []" by auto
    define i where "i = min_index_loop tops 1 0"
    from min_index[OF ne] have i: "i < length tops" "\<forall>y \<in> set tops. score (tops ! i) \<le> score y"
      by (simp_all add: i_def)
    show ?thesis
    proof (cases "score e > score (tops ! i)")
      case gt: True
      have adm: "admit K e tops = tops[i := e]"
        using False gt by (simp add: admit_def i_def)
      have m1: "mset (tops[i := e]) + mset (tops ! i # rest) = mset (seen @ [e])"
        using i(1) ms by (simp add: mset_update)
      have s1: "set (tops[i := e]) \<subseteq> insert e (set tops)"
        by (rule set_update_subset_insert)
      have d1: "\<forall>x \<in> set (tops ! i # rest). \<forall>y \<in> set (tops[i := e]). score x \<le> score y"
      proof (intro ballI)
        fix x y assume x: "x \<in> set (tops ! i # rest)" and y: "y \<in> set (tops[i := e])"
        have xm: "score x \<le> score (tops ! i)"
          using x dom i(1) by (auto simp: nth_mem)
        from y s1 consider "y = e" | "y \<in> set tops" by auto
        then show "score x \<le> score y"
          using xm gt i(2) by cases (auto intro: order_trans)
      qed
      show ?thesis
        unfolding top_k_of_def adm using lenK m1 d1
        by (intro conjI exI[of _ "tops ! i # rest"]) simp_all
    next
      case le: False
      have adm: "admit K e tops = tops"
        using False le by (simp add: admit_def i_def)
      have d1: "\<forall>x \<in> set (e # rest). \<forall>y \<in> set tops. score x \<le> score y"
        using dom le i(2) by (auto intro: order_trans)
      show ?thesis
        unfolding top_k_of_def adm using lenK ms d1
        by (intro conjI exI[of _ "e # rest"]) simp_all
    qed
  qed
qed

lemma foldl_admit_top_k:
  assumes "1 \<le> K" "top_k_of K seen tops"
  shows "top_k_of K (seen @ es) (foldl (\<lambda>t e. admit K e t) tops es)"
  using assms(2)
proof (induction es arbitrary: seen tops)
  case Nil
  then show ?case by simp
next
  case (Cons e es)
  from Cons.IH[OF admit_top_k[OF assms(1) Cons.prems, of e]] show ?case by simp
qed

lemma top_k_start: "top_k_of K [] []"
  by (simp add: top_k_of_def)

lemma top_k_sort:
  assumes "top_k_of K es tops"
  shows "top_k_of K es (sort_key (\<lambda>r. - score r) tops)"
  using assms unfolding top_k_of_def by simp

lemma sorted_desc: "sorted_wrt (\<lambda>a b. score a \<ge> score b) (sort_key (\<lambda>r. - score r) tops)"
proof -
  have "sorted (map (\<lambda>r. - score r) (sort_key (\<lambda>r. - score r) tops))"
    by (rule sorted_sort_key)
  then show ?thesis
    by (simp add: sorted_map)
qed

lemma scan_foldl:
  assumes "scan_candidates env q K cands tops = Inr res"
  shows "res = foldl (\<lambda>t e. admit K e t) tops (entries env q cands)"
  using assms
proof (induction cands arbitrary: tops)
  case Nil
  then show ?case by (simp add: entries_def)
next
  case (Cons c cands)
  from Cons.prems obtain bits where bits: "bufferToFloat32Array env (embedding (fst c)) = Inr bits"
    by (cases "bufferToFloat32Array env (embedding (fst c))") simp_all
  from Cons.prems bits obtain s where s: "cosineSimilarity env q (map float32_value bits) = Inr s"
    by (cases "cosineSimilarity env q (map float32_value bits)") simp_all
  have sim: "similarity_of env q c = s"
    by (simp add: similarity_of_def vector_of_def bits s)
  from Cons.prems bits s have "scan_candidates env q K cands (admit K (entry_of env c s) tops) = Inr res"
    by simp
  from Cons.IH[OF this] show ?case
    by (simp add: entries_def sim)
qed

lemma scan_scores:
  assumes "scan_candidates env q K cands tops = Inr res" "c \<in> set cands"
  shows "cosineSimilarity env q (vector_of env c) = Inr (similarity_of env q c)"
  using assms
proof (induction cands arbitrary: tops)
  case Nil
  then show ?case by simp
next
  case (Cons d cands)
  from Cons.prems obtain bits where bits: "bufferToFloat32Array env (embedding (fst d)) = Inr bits"
    by (cases "bufferToFloat32Array env (embedding (fst d))") simp_all
  from Cons.prems bits obtain s where s: "cosineSimilarity env q (map float32_value bits) = Inr s"
    by (cases "cosineSimilarity env q (map float32_value bits)") simp_all
  from Cons.prems bits s have rest: "scan_candidates env q K cands (admit K (entry_of env d s) tops) = Inr res"
    by simp
  show ?case
  proof (cases "c = d")
    case True
    then show ?thesis by (simp add: similarity_of_def vector_of_def bits s)
  next
    case False
    with Cons.prems(2) have "c \<in> set cands" by simp
    from Cons.IH[OF rest this] show ?thesis .
  qed
qed








lemma count_zero: "sql_count_embeddings db name = 0 \<Longrightarrow> sql_embeddings db name = []"
  by (auto simp: sql_count_embeddings_def sql_embeddings_def split: if_splits)


lemma searchVector_result:
  assumes "searchVector env db query options = (Inr results, calls)"
  shows "top_k_of (clampLimit (limit_or_10 options))
           (entries env (query_vector env query) (sql_embeddings db (collectionName options))) results \<and>
         sorted_wrt (\<lambda>a b. score a \<ge> score b) results \<and>
         (\<forall>c \<in> set (sql_embeddings db (collectionName options)).
            cosineSimilarity env (query_vector env query) (vector_of env c)
              = Inr (similarity_of env (query_vector env query) c))"
proof (cases "sql_count_embeddings db (collectionName options) = 0")
  case True
  with assms have "results = []" by (simp add: searchVector_def Let_def)
  with count_zero[OF True] show ?thesis
    by (simp add: entries_def top_k_start)
next
  case False
  with assms obtain q where q: "generateQueryEmbedding env query = Inr q"
    by (cases "generateQueryEmbedding env query") (simp_all add: searchVector_def Let_def)
  define K where "K = clampLimit (limit_or_10 options)"
  define cands where "cands = sql_embeddings db (collectionName options)"
  from assms False q obtain tops where
    scan: "scan_candidates env q K cands [] = Inr tops" and
    res: "results = sort_key (\<lambda>r. - score r) tops"
    by (cases "scan_candidates env q K cands []")
       (auto simp: searchVector_def Let_def K_def cands_def)
  have qv: "query_vector env query = q" by (simp add: query_vector_def q)
  have K1: "1 \<le> K" using clampLimit_bounds by (simp add: K_def)
  have "top_k_of K ([] @ entries env q cands) (foldl (\<lambda>t e. admit K e t) [] (entries env q cands))"
    by (rule foldl_admit_top_k[OF K1 top_k_start])
  then have "top_k_of K (entries env q cands) tops"
    using scan_foldl[OF scan] by simp
  then have "top_k_of K (entries env q cands) results"
    unfolding res by (rule top_k_sort)
  moreover have "sorted_wrt (\<lambda>a b. score a \<ge> score b) results"
    unfolding res by (rule sorted_desc)
  moreover have "\<forall>c \<in> set cands. cosineSimilarity env q (vector_of env c) = Inr (similarity_of env q c)"
    using scan_scores[OF scan] by blast
  ultimately show ?thesis
    by (simp add: qv K_def cands_def)
qed










lemma vector_db_candidates:
  "sql_embeddings vector_db None =
     [(\<lparr>emb_chunk_id = 1, embedding = [0, 0, 128, 191], embedding_model = js ''m''\<rparr>,
       \<lparr>chunk_id = 1, file_metadata_id = 1, chunk_index = 0, chunk_text = js ''foo'',
          start_line = 1, end_line = 2, token_count = 1\<rparr>,
       \<lparr>fm_id = 1, collection_id = 1, file_path = js ''/n/a.md'', file_hash = js ''h1''\<rparr>,
       \<lparr>col_id = 1, col_name = js ''notes'', base_path = js ''/n'', glob_mask = js ''*.md''\<rparr>),
      (\<lparr>emb_chunk_id = 2, embedding = [0, 0, 128, 63], embedding_model = js ''m''\<rparr>,
       \<lparr>chunk_id = 2, file_metadata_id = 1, chunk_index = 1, chunk_text = js ''foo bar'',
          start_line = 3, end_line = 4, token_count = 2\<rparr>,
       \<lparr>fm_id = 1, collection_id = 1, file_path = js ''/n/a.md'', file_hash = js ''h1''\<rparr>,
       \<lparr>col_id = 1, col_name = js ''notes'', base_path = js ''/n'', glob_mask = js ''*.md''\<rparr>)]"
  by (simp add: sql_embeddings_def chunk_joins_def vector_db_def example_db_def truthy_def)

lemma decode_examples:
  "bufferToFloat32Array example_env [0, 0, 128, 191] = Inr [0xBF800000]"
  "bufferToFloat32Array example_env [0, 0, 128, 63] = Inr [0x3F800000]"
  "float32_value 0xBF800000 = - 1" "float32_value 0x3F800000 = 1"
  by (simp_all add: bufferToFloat32Array_def bufferToFloat32Array_loop.simps readFloatLE_def
      bytes_float_def as_number_def isNaN32_def float32_value_def)

lemma example_cosine:
  "cosineSimilarity example_env [1] [- 1] = Inr (- 1)"
  "cosineSimilarity example_env [1] [1] = Inr 1"
  by (simp_all add: cosineSimilarity_def cosine_step_def example_env_def example_engine_def)

lemma example_normalized:
  "normalized example_env (- 1) = 0" "normalized example_env 1 = 1"
  by (simp_all add: normalized_def example_env_def example_engine_def)




subsection \<open>Hybrid search\<close>

lemma score_in_Nil: "score_in [] k = 0"
  by (simp add: score_in_def)

lemma score_in_snoc: "score_in (rs @ [x]) k = (if chunkId x = k then score x else score_in rs k)"
  by (simp add: score_in_def)

lemma score_in_absent: "k \<notin> chunkId ` set rs \<Longrightarrow> score_in rs k = 0"
proof -
  assume "k \<notin> chunkId ` set rs"
  then have "find (\<lambda>r. chunkId r = k) (rev rs) = None"
    by (auto simp: find_None_iff)
  then show ?thesis by (simp add: score_in_def)
qed

lemma keys_map_set:
  "map fst (map_set k v m) = (if k \<in> fst ` set m then map fst m else map fst m @ [k])"
  by (induction m) auto

lemma set_map_set:
  "distinct (map fst m) \<Longrightarrow> set (map_set k v m) = insert (k, v) {p \<in> set m. fst p \<noteq> k}"
proof (induction m)
  case Nil
  show ?case by simp
next
  case (Cons p m)
  show ?case
  proof (cases "fst p = k")
    case True
    from Cons.prems have "fst p \<notin> fst ` set m" by simp
    with True have "\<forall>q \<in> set m. fst q \<noteq> k" by blast
    with True show ?thesis by auto
  next
    case False
    with Cons show ?thesis by auto
  qed
qed

lemma map_set_fresh: "k \<notin> fst ` set m \<Longrightarrow> map_set k v m = m @ [(k, v)]"
  by (induction m) auto

lemma ext_fields:
  "chunkId (search_result.extend x \<lparr>bm25Score = a, vectorScore = b\<rparr>) = chunkId x"
  "bm25Score (search_result.extend x \<lparr>bm25Score = a, vectorScore = b\<rparr>) = a"
  "vectorScore (search_result.extend x \<lparr>bm25Score = a, vectorScore = b\<rparr>) = b"
  by (simp_all add: search_result.extend_def)

lemma fused_start: "fused [] [] []"
  by (simp add: fused_def)

lemma fused_add_bm25:
  assumes "fused bm [] m"
  shows "fused (bm @ [x]) [] (add_bm25 m x)"
proof -
  define v where "v = search_result.extend x \<lparr>bm25Score = score x, vectorScore = 0\<rparr>"
  from assms have d: "distinct (map fst m)" and
    keys: "fst ` set m = chunkId ` set bm" and
    vals: "\<And>k r. (k, r) \<in> set m \<Longrightarrow>
        chunkId r = k \<and> bm25Score r = score_in bm k \<and> vectorScore r = 0"
    by (simp_all add: fused_def score_in_Nil)
  have m': "add_bm25 m x = map_set (chunkId x) v m"
    by (simp add: add_bm25_def v_def)
  have s: "set (map_set (chunkId x) v m) = insert (chunkId x, v) {p \<in> set m. fst p \<noteq> chunkId x}"
    by (rule set_map_set[OF d])
  have d': "distinct (map fst (map_set (chunkId x) v m))"
    using d by (simp add: keys_map_set)
  have k': "fst ` set (map_set (chunkId x) v m) = chunkId ` set (bm @ [x]) \<union> chunkId ` set []"
    using keys by (simp add: keys_map_set[THEN arg_cong, of set, simplified] set_map[symmetric] del: set_map)
       (auto simp: keys_map_set set_map[symmetric] simp del: set_map)
  have v': "chunkId r = k \<and> bm25Score r = score_in (bm @ [x]) k \<and> vectorScore r = score_in [] k"
    if "(k, r) \<in> set (map_set (chunkId x) v m)" for k r
  proof (cases "(k, r) = (chunkId x, v)")
    case True
    then show ?thesis by (simp add: v_def ext_fields score_in_snoc score_in_Nil)
  next
    case False
    with that s have "(k, r) \<in> set m" "k \<noteq> chunkId x" by auto
    with vals[of k r] show ?thesis by (simp add: score_in_snoc score_in_Nil)
  qed
  show ?thesis
    unfolding fused_def m' using d' k' v' by blast
qed

lemma keys_set_map_set: "fst ` set (map_set k v m) = insert k (fst ` set m)"
proof -
  have "set (map fst (map_set k v m)) = insert k (set (map fst m))"
    by (simp only: keys_map_set) (simp add: insert_absorb)
  then show ?thesis by simp
qed

lemma distinct_map_set: "distinct (map fst m) \<Longrightarrow> distinct (map fst (map_set k v m))"
  by (simp add: keys_map_set)

lemma fused_add_vector:
  assumes "fused bm vec m"
  shows "fused bm (vec @ [x]) (add_vector m x)"
proof -
  from assms have d: "distinct (map fst m)" and
    keys: "fst ` set m = chunkId ` set bm \<union> chunkId ` set vec" and
    vals: "\<And>k r. (k, r) \<in> set m \<Longrightarrow>
        chunkId r = k \<and> bm25Score r = score_in bm k \<and> vectorScore r = score_in vec k"
    by (simp_all add: fused_def)
  define v where "v = (case map_of m (chunkId x) of
        Some existing \<Rightarrow> existing\<lparr>vectorScore := score x\<rparr>
      | None \<Rightarrow> search_result.extend x \<lparr>bm25Score = 0, vectorScore = score x\<rparr>)"
  have m': "add_vector m x = map_set (chunkId x) v m"
    by (simp add: add_vector_def v_def split: option.splits)
  have vprops: "chunkId v = chunkId x \<and> bm25Score v = score_in bm (chunkId x) \<and> vectorScore v = score x"
  proof (cases "map_of m (chunkId x)")
    case None
    then have "chunkId x \<notin> fst ` set m"
      by (simp add: map_of_eq_None_iff)
    with keys have "chunkId x \<notin> chunkId ` set bm" by simp
    then have "score_in bm (chunkId x) = 0" by (rule score_in_absent)
    with None show ?thesis by (simp add: v_def ext_fields)
  next
    case (Some existing)
    then have "(chunkId x, existing) \<in> set m" by (rule map_of_SomeD)
    from vals[OF this] Some show ?thesis by (simp add: v_def)
  qed
  have s: "set (map_set (chunkId x) v m) = insert (chunkId x, v) {p \<in> set m. fst p \<noteq> chunkId x}"
    by (rule set_map_set[OF d])
  have k': "fst ` set (map_set (chunkId x) v m) = chunkId ` set bm \<union> chunkId ` set (vec @ [x])"
    using keys by (simp add: keys_set_map_set)
  have v': "chunkId r = k \<and> bm25Score r = score_in bm k \<and> vectorScore r = score_in (vec @ [x]) k"
    if "(k, r) \<in> set (map_set (chunkId x) v m)" for k r
  proof (cases "(k, r) = (chunkId x, v)")
    case True
    with vprops show ?thesis by (simp add: score_in_snoc)
  next
    case False
    with that s have "(k, r) \<in> set m" "k \<noteq> chunkId x" by auto
    with vals[of k r] show ?thesis by (simp add: score_in_snoc)
  qed
  show ?thesis
    unfolding fused_def m' using distinct_map_set[OF d] k' v' by blast
qed

lemma fused_bm25: "fused bm [] (foldl add_bm25 [] bm)"
proof (induction bm rule: rev_induct)
  case Nil
  show ?case by (simp add: fused_start)
next
  case (snoc x bm)
  then show ?case by (simp add: fused_add_bm25)
qed

lemma fused_all: "fused bm vec (foldl add_vector (foldl add_bm25 [] bm) vec)"
proof (induction vec rule: rev_induct)
  case Nil
  show ?case by (simp add: fused_bm25)
next
  case (snoc x vec)
  then show ?case by (simp add: fused_add_vector)
qed

lemma combine_fields:
  "chunkId (combine wb wv r) = chunkId r"
  "score (combine wb wv r) = bm25Score r * wb + vectorScore r * wv"
  "rawScore (combine wb wv r) = \<lparr>bm25 = bm25Score r, vector = vectorScore r\<rparr>"
  "bm25Score (combine wb wv r) = bm25Score r"
  "vectorScore (combine wb wv r) = vectorScore r"
  by (simp_all add: combine_def)

lemma fused_combined:
  fixes wb wv :: real
  assumes "fused bm vec m" and c: "combined = map (combine wb wv) (map snd m)"
  shows "distinct (map chunkId combined)"
    and "chunkId ` set combined = chunkId ` set bm \<union> chunkId ` set vec"
    and "\<forall>r \<in> set combined.
           score r = score_in bm (chunkId r) * wb + score_in vec (chunkId r) * wv \<and>
           rawScore r = \<lparr>bm25 = score_in bm (chunkId r), vector = score_in vec (chunkId r)\<rparr> \<and>
           bm25Score r = score_in bm (chunkId r) \<and> vectorScore r = score_in vec (chunkId r)"
proof -
  from assms(1) have d: "distinct (map fst m)" and
    keys: "fst ` set m = chunkId ` set bm \<union> chunkId ` set vec" and
    vals: "\<And>k r. (k, r) \<in> set m \<Longrightarrow>
        chunkId r = k \<and> bm25Score r = score_in bm k \<and> vectorScore r = score_in vec k"
    by (simp_all add: fused_def)
  have "chunkId (combine wb wv (snd p)) = fst p" if "p \<in> set m" for p
  proof -
    from that have "(fst p, snd p) \<in> set m" by simp
    from vals[OF this] show ?thesis by (simp add: combine_fields)
  qed
  then have ids: "map chunkId combined = map fst m"
    unfolding c by (simp add: comp_def)
  show "distinct (map chunkId combined)" by (simp add: ids d)
  have "set (map chunkId combined) = set (map fst m)" by (simp only: ids)
  then show "chunkId ` set combined = chunkId ` set bm \<union> chunkId ` set vec"
    using keys by simp
  show "\<forall>r \<in> set combined.
           score r = score_in bm (chunkId r) * wb + score_in vec (chunkId r) * wv \<and>
           rawScore r = \<lparr>bm25 = score_in bm (chunkId r), vector = score_in vec (chunkId r)\<rparr> \<and>
           bm25Score r = score_in bm (chunkId r) \<and> vectorScore r = score_in vec (chunkId r)"
  proof
    fix r assume "r \<in> set combined"
    then obtain p where p: "p \<in> set m" "r = combine wb wv (snd p)"
      by (auto simp: c)
    then have "(fst p, snd p) \<in> set m" by simp
    from vals[OF this] show
      "score r = score_in bm (chunkId r) * wb + score_in vec (chunkId r) * wv \<and>
       rawScore r = \<lparr>bm25 = score_in bm (chunkId r), vector = score_in vec (chunkId r)\<rparr> \<and>
       bm25Score r = score_in bm (chunkId r) \<and> vectorScore r = score_in vec (chunkId r)"
      by (simp add: p(2) combine_fields)
  qed
qed

lemma take_sort_top_k:
  "top_k_of K es (take K (sort_key (\<lambda>r. - score r) es)) \<and>
   sorted_wrt (\<lambda>a b. score a \<ge> score b) (take K (sort_key (\<lambda>r. - score r) es))"
proof -
  define s where "s = sort_key (\<lambda>r. - score r) es"
  have srt: "sorted_wrt (\<lambda>a b. score a \<ge> score b) s"
    unfolding s_def by (rule sorted_desc)
  then have "sorted_wrt (\<lambda>a b. score a \<ge> score b) (take K s @ drop K s)" by simp
  then have parts: "sorted_wrt (\<lambda>a b. score a \<ge> score b) (take K s)"
    "\<forall>x \<in> set (take K s). \<forall>y \<in> set (drop K s). score x \<ge> score y"
    unfolding sorted_wrt_append by blast+
  have "mset es = mset (take K s) + mset (drop K s)"
    by (metis append_take_drop_id mset_append mset_sort s_def)
  moreover have "length (take K s) = min K (length es)"
    by (simp add: s_def min.commute)
  ultimately have "top_k_of K es (take K s)"
    unfolding top_k_of_def using parts(2) by blast
  with parts(1) show ?thesis by (simp add: s_def)
qed

lemma leg_options_fields:
  "limit_or_10 (leg_options options) = times3 (limit_or_10 options)"
  "collectionName (leg_options options) = collectionName options"
  "limit (leg_options options) = Some (times3 (limit_or_10 options))"
  by (simp_all add: leg_options_def limit_or_10_def)

lemma searchBM25_length:
  assumes "searchBM25 env db query options = (Inr rs, calls)"
  shows "length rs \<le> clampLimit (limit_or_10 options)"
proof (cases "escapeFtsQuery query = []")
  case True
  with assms show ?thesis by (simp add: searchBM25_def Let_def)
next
  case False
  show ?thesis
  proof (cases "sql_bm25 env db (escapeFtsQuery query) (collectionName options) (clampLimit (limit_or_10 options))")
    case (Inl e)
    with assms False show ?thesis
      by (simp add: searchBM25_def Let_def split: if_splits)
  next
    case (Inr rows)
    then have "length rows \<le> clampLimit (limit_or_10 options)"
      by (auto simp: sql_bm25_def split: sum.splits)
    moreover have "length rs = length rows"
      using searchBM25_rows[OF False Inr] assms by auto
    ultimately show ?thesis by simp
  qed
qed

lemma searchVector_length:
  assumes "searchVector env db query options = (Inr rs, calls)"
  shows "length rs \<le> clampLimit (limit_or_10 options)"
  using searchVector_result[OF assms] by (simp add: top_k_of_def)

lemma searchHybrid_unfold:
  assumes "searchBM25 env db query (leg_options options) = (Inr bm, c1)"
  shows "searchHybrid env db query options =
     (Inr (take (clampLimit (limit_or_10 options))
            (sort_key (\<lambda>r. - score r)
               (map (combine (weight_or 0.4 (bm25Weight options)) (weight_or 0.6 (vectorWeight options)))
                  (map snd (foldl add_vector (foldl add_bm25 [] bm)
                     (case fst (searchVector env db query (leg_options options)) of
                        Inl e \<Rightarrow> [] | Inr rs \<Rightarrow> rs)))))),
      c1 @ snd (searchVector env db query (leg_options options)))"
  using assms by (simp add: searchHybrid_def Let_def split_def)

lemma searchHybrid_bm25:
  assumes "searchHybrid env db query options = (Inr results, calls)"
  shows "\<exists>bm. fst (searchBM25 env db query (leg_options options)) = Inr bm"
  using assms by (cases "fst (searchBM25 env db query (leg_options options))")
    (simp_all add: searchHybrid_def Let_def split_def)

lemma top_k_subset: "top_k_of K es res \<Longrightarrow> set res \<subseteq> set es"
  unfolding top_k_of_def by (metis mset_subset_eq_add_left set_mset_mono set_mset_mset)

lemma searchHybrid_result:
  assumes "searchHybrid env db query options = (Inr results, calls)"
  shows "\<exists>bm vec combined.
     fst (searchBM25 env db query (leg_options options)) = Inr bm \<and>
     vec = (case fst (searchVector env db query (leg_options options)) of Inl e \<Rightarrow> [] | Inr rs \<Rightarrow> rs) \<and>
     length bm \<le> clampLimit (times3 (limit_or_10 options)) \<and>
     length vec \<le> clampLimit (times3 (limit_or_10 options)) \<and>
     distinct (map chunkId combined) \<and>
     chunkId ` set combined = chunkId ` set bm \<union> chunkId ` set vec \<and>
     (\<forall>r \<in> set combined.
        score r = score_in bm (chunkId r) * weight_or 0.4 (bm25Weight options)
                + score_in vec (chunkId r) * weight_or 0.6 (vectorWeight options)) \<and>
     set results \<subseteq> set combined \<and>
     top_k_of (clampLimit (limit_or_10 options)) combined results \<and>
     sorted_wrt (\<lambda>a b. score a \<ge> score b) results \<and>
     length results \<le> clampLimit (limit_or_10 options) \<and>
     calls = snd (searchBM25 env db query (leg_options options)) @
             snd (searchVector env db query (leg_options options))"
proof -
  from searchHybrid_bm25[OF assms] obtain bm where
    bm: "fst (searchBM25 env db query (leg_options options)) = Inr bm" by blast
  define c1 where "c1 = snd (searchBM25 env db query (leg_options options))"
  have bm': "searchBM25 env db query (leg_options options) = (Inr bm, c1)"
    by (simp add: c1_def bm[symmetric])
  define vec where
    "vec = (case fst (searchVector env db query (leg_options options)) of Inl e \<Rightarrow> [] | Inr rs \<Rightarrow> rs)"
  define wb where "wb = weight_or 0.4 (bm25Weight options)"
  define wv where "wv = weight_or 0.6 (vectorWeight options)"
  define K where "K = clampLimit (limit_or_10 options)"
  define K3 where "K3 = clampLimit (times3 (limit_or_10 options))"
  define combined where
    "combined = map (combine wb wv) (map snd (foldl add_vector (foldl add_bm25 [] bm) vec))"
  have res: "results = take K (sort_key (\<lambda>r. - score r) combined)"
    using searchHybrid_unfold[OF bm'] assms
    by (simp add: combined_def vec_def wb_def wv_def K_def)
  note f = fused_combined[OF fused_all combined_def]
  have tk: "top_k_of K combined results" "sorted_wrt (\<lambda>a b. score a \<ge> score b) results"
    unfolding res using take_sort_top_k by blast+
  have lb: "length bm \<le> K3"
    using searchBM25_length[OF bm'] by (simp add: leg_options_fields K3_def)
  have lv: "length vec \<le> K3"
  proof (cases "searchVector env db query (leg_options options)")
    case (Pair r c2)
    show ?thesis
    proof (cases r)
      case (Inl e)
      with Pair show ?thesis by (simp add: vec_def)
    next
      case (Inr rs)
      with Pair searchVector_length[of env db query "leg_options options" rs c2]
      show ?thesis by (simp add: vec_def leg_options_fields K3_def)
    qed
  qed
  have lr: "length results \<le> K" by (simp add: res)
  have cl: "calls = snd (searchBM25 env db query (leg_options options)) @
             snd (searchVector env db query (leg_options options))"
    using searchHybrid_unfold[OF bm'] assms by (simp add: c1_def)
  show ?thesis
    apply (rule exI[of _ bm], rule exI[of _ vec], rule exI[of _ combined])
    using bm f tk lb lv lr cl top_k_subset[OF tk(1)]
    by (simp add: vec_def wb_def wv_def K_def K3_def)
qed


lemma weight_or_cases:
  "weight_or d w = (case w of None \<Rightarrow> d | Some x \<Rightarrow> x)"
  by (simp add: weight_or_def)

lemma leg_options_explicit:
  "leg_options options =
     \<lparr>limit = Some (case (case limit options of None \<Rightarrow> Num 10 | Some l \<Rightarrow> l) of
                      Num r \<Rightarrow> Num (3 * r) | NotFinite \<Rightarrow> NotFinite),
      collectionName = collectionName options, bm25Weight = None, vectorWeight = None\<rparr>"
  by (simp add: leg_options_def times3_def limit_or_10_def mult.commute split: option.splits jsnum.splits)

lemma clampLimit_explicit:
  "clampLimit (limit_or_10 options) =
     (case (case limit options of None \<Rightarrow> Num 10 | Some l \<Rightarrow> l) of
        Num r \<Rightarrow> nat (max 1 (min 100 \<lfloor>r\<rfloor>)) | NotFinite \<Rightarrow> 10)"
  "clampLimit (times3 (limit_or_10 options)) =
     (case (case limit options of None \<Rightarrow> Num 10 | Some l \<Rightarrow> l) of
        Num r \<Rightarrow> nat (max 1 (min 100 \<lfloor>3 * r\<rfloor>)) | NotFinite \<Rightarrow> 10)"
  by (simp_all add: clampLimit_def times3_def limit_or_10_def mult.commute
      split: option.splits jsnum.splits)

lemma clamp_le:
  fixes r :: real
  assumes "1 \<le> r"
  shows "real (nat (max 1 (min 100 \<lfloor>r\<rfloor>))) \<le> r"
proof -
  from assms have "1 \<le> \<lfloor>r\<rfloor>" by linarith
  then have "real (nat (max 1 (min 100 \<lfloor>r\<rfloor>))) \<le> real_of_int \<lfloor>r\<rfloor>"
    by (simp add: max_def min_def)
  then show ?thesis by linarith
qed

text \<open>
  Claim C2, as amended. Let \<open>k\<close> be the limit of the options (10 when they give none),
  \<open>wb\<close> and \<open>wv\<close> the lexical and the vector weight of the options (0.4 and 0.6 when
  they give none), \<open>K = max 1 (min 100 \<lfloor>k\<rfloor>)\<close> and \<open>K3 = max 1 (min 100 \<lfloor>3k\<rfloor>)\<close> (both 10
  when \<open>k\<close> is not finite). Whenever hybrid search returns, with \<open>bm\<close> and \<open>vec\<close> the
  results of the two legs (the vector leg's result is empty if it failed): both legs
  were called with the limit \<open>3k\<close> and the collection of the options, and each returned
  at most \<open>K3\<close> entries; the fused list has one entry for every chunk of either leg, and
  the score of an entry is \<open>lexical score \<times> wb + vector score \<times> wv\<close>, a chunk absent
  from a leg counting 0 for it; the returned list is sorted by descending score and
  holds the \<open>min K n\<close> highest-scoring entries of the \<open>n\<close> fused ones. For \<open>k \<ge> 1\<close> these
  are at most \<open>k\<close> results, from at most \<open>3k\<close> candidates of each leg.
\<close>

theorem hybrid_search_scores:
  assumes "searchHybrid env db query options = (Inr results, calls)"
  shows "\<exists>k wb wv K K3 legOptions bm vec combined.
     k = (case limit options of None \<Rightarrow> Num 10 | Some l \<Rightarrow> l) \<and>
     wb = (case bm25Weight options of None \<Rightarrow> 4 / 10 | Some w \<Rightarrow> w) \<and>
     wv = (case vectorWeight options of None \<Rightarrow> 6 / 10 | Some w \<Rightarrow> w) \<and>
     K = (case k of Num r \<Rightarrow> nat (max 1 (min 100 \<lfloor>r\<rfloor>)) | NotFinite \<Rightarrow> 10) \<and>
     K3 = (case k of Num r \<Rightarrow> nat (max 1 (min 100 \<lfloor>3 * r\<rfloor>)) | NotFinite \<Rightarrow> 10) \<and>
     legOptions =
       \<lparr>limit = Some (case k of Num r \<Rightarrow> Num (3 * r) | NotFinite \<Rightarrow> NotFinite),
        collectionName = collectionName options, bm25Weight = None, vectorWeight = None\<rparr> \<and>
     fst (searchBM25 env db query legOptions) = Inr bm \<and>
     vec = (case fst (searchVector env db query legOptions) of Inl e \<Rightarrow> [] | Inr rs \<Rightarrow> rs) \<and>
     calls = snd (searchBM25 env db query legOptions) @ snd (searchVector env db query legOptions) \<and>
     length bm \<le> K3 \<and> length vec \<le> K3 \<and>
     distinct (map chunkId combined) \<and>
     chunkId ` set combined = chunkId ` set bm \<union> chunkId ` set vec \<and>
     (\<forall>r \<in> set combined.
        score r = score_in bm (chunkId r) * wb + score_in vec (chunkId r) * wv) \<and>
     set results \<subseteq> set combined \<and>
     top_k_of K combined results \<and>
     sorted_wrt (\<lambda>a b. score a \<ge> score b) results \<and>
     length results = min K (length combined) \<and>
     (\<forall>r. k = Num r \<and> 1 \<le> r \<longrightarrow>
        real (length results) \<le> r \<and> real (length bm) \<le> 3 * r \<and> real (length vec) \<le> 3 * r)"
proof -
  define k where "k = (case limit options of None \<Rightarrow> Num 10 | Some l \<Rightarrow> l)"
  define K where "K = (case k of Num r \<Rightarrow> nat (max 1 (min 100 \<lfloor>r\<rfloor>)) | NotFinite \<Rightarrow> 10)"
  define K3 where "K3 = (case k of Num r \<Rightarrow> nat (max 1 (min 100 \<lfloor>3 * r\<rfloor>)) | NotFinite \<Rightarrow> 10)"
  define legOptions where "legOptions =
       \<lparr>limit = Some (case k of Num r \<Rightarrow> Num (3 * r) | NotFinite \<Rightarrow> NotFinite),
        collectionName = collectionName options, bm25Weight = None, vectorWeight = None\<rparr>"
  have lo: "leg_options options = legOptions"
    unfolding legOptions_def k_def by (rule leg_options_explicit)
  have cK: "clampLimit (limit_or_10 options) = K" "clampLimit (times3 (limit_or_10 options)) = K3"
    unfolding K_def K3_def k_def by (rule clampLimit_explicit)+
  from searchHybrid_result[OF assms] obtain bm vec combined where
    r: "fst (searchBM25 env db query legOptions) = Inr bm"
       "vec = (case fst (searchVector env db query legOptions) of Inl e \<Rightarrow> [] | Inr rs \<Rightarrow> rs)"
       "length bm \<le> K3" "length vec \<le> K3"
       "distinct (map chunkId combined)"
       "chunkId ` set combined = chunkId ` set bm \<union> chunkId ` set vec"
       "\<forall>r \<in> set combined.
          score r = score_in bm (chunkId r) * (case bm25Weight options of None \<Rightarrow> 4 / 10 | Some w \<Rightarrow> w)
                  + score_in vec (chunkId r) * (case vectorWeight options of None \<Rightarrow> 6 / 10 | Some w \<Rightarrow> w)"
       "set results \<subseteq> set combined"
       "top_k_of K combined results"
       "sorted_wrt (\<lambda>a b. score a \<ge> score b) results"
       "calls = snd (searchBM25 env db query legOptions) @ snd (searchVector env db query legOptions)"
    unfolding lo cK weight_or_cases by auto
  have len: "length results = min K (length combined)"
    using r(9) by (simp add: top_k_of_def)
  have bounds: "real (length results) \<le> x \<and> real (length bm) \<le> 3 * x \<and> real (length vec) \<le> 3 * x"
    if "k = Num x \<and> 1 \<le> x" for x
  proof -
    from that have x: "k = Num x" "1 \<le> x" by simp_all
    have "1 \<le> 3 * x" using x(2) by simp
    from clamp_le[OF x(2)] clamp_le[OF this] have "real K \<le> x" "real K3 \<le> 3 * x"
      by (simp_all add: K_def K3_def x(1))
    moreover have "length results \<le> K" using len by simp
    ultimately show ?thesis using r(3,4) by linarith
  qed
  show ?thesis
    apply (rule exI[of _ k], rule exI[of _ "case bm25Weight options of None \<Rightarrow> 4 / 10 | Some w \<Rightarrow> w"],
           rule exI[of _ "case vectorWeight options of None \<Rightarrow> 6 / 10 | Some w \<Rightarrow> w"],
           rule exI[of _ K], rule exI[of _ K3], rule exI[of _ legOptions],
           rule exI[of _ bm], rule exI[of _ vec], rule exI[of _ combined])
    using r len bounds by (simp add: k_def K_def K3_def legOptions_def)
qed

lemma foldl_add_bm25_distinct:
  assumes "distinct (map chunkId bm)"
  shows "foldl add_bm25 [] bm =
     map (\<lambda>x. (chunkId x, search_result.extend x \<lparr>bm25Score = score x, vectorScore = 0\<rparr>)) bm"
  using assms
proof (induction bm rule: rev_induct)
  case Nil
  show ?case by simp
next
  case (snoc x bm)
  then have ih: "foldl add_bm25 [] bm =
     map (\<lambda>x. (chunkId x, search_result.extend x \<lparr>bm25Score = score x, vectorScore = 0\<rparr>)) bm"
    and fresh: "chunkId x \<notin> chunkId ` set bm"
    by simp_all
  have "fst ` set (foldl add_bm25 [] bm) = chunkId ` set bm"
    using fused_bm25[of bm] by (simp add: fused_def)
  with fresh have "chunkId x \<notin> fst ` set (foldl add_bm25 [] bm)" by simp
  then have "map_set (chunkId x) (search_result.extend x \<lparr>bm25Score = score x, vectorScore = 0\<rparr>)
        (foldl add_bm25 [] bm) =
      foldl add_bm25 [] bm @ [(chunkId x, search_result.extend x \<lparr>bm25Score = score x, vectorScore = 0\<rparr>)]"
    by (rule map_set_fresh)
  moreover have "foldl add_bm25 [] (bm @ [x]) = add_bm25 (foldl add_bm25 [] bm) x"
    by simp
  ultimately have "foldl add_bm25 [] (bm @ [x]) =
      foldl add_bm25 [] bm @ [(chunkId x, search_result.extend x \<lparr>bm25Score = score x, vectorScore = 0\<rparr>)]"
    by (simp only: add_bm25_def)
  then show ?case
    by (simp only: ih) simp
qed

lemma combine_lexical:
  "combine wb wv (search_result.extend x \<lparr>bm25Score = score x, vectorScore = 0\<rparr>) = lexical_only wb x"
  by (simp add: combine_def lexical_only_def search_result.extend_def)

lemma searchHybrid_lexical:
  assumes "searchBM25 env db query (leg_options options) = (Inr bm, c1)"
    and "searchVector env db query (leg_options options) = (Inl e, c2)"
  shows "\<exists>results combined.
     searchHybrid env db query options = (Inr results, c1 @ c2) \<and>
     distinct (map chunkId combined) \<and>
     chunkId ` set combined = chunkId ` set bm \<and>
     (\<forall>r \<in> set combined.
        score r = score_in bm (chunkId r) * weight_or 0.4 (bm25Weight options) \<and>
        bm25Score r = score_in bm (chunkId r) \<and> vectorScore r = 0) \<and>
     set results \<subseteq> set combined \<and>
     top_k_of (clampLimit (limit_or_10 options)) combined results \<and>
     sorted_wrt (\<lambda>a b. score a \<ge> score b) results \<and>
     (distinct (map chunkId bm) \<longrightarrow>
        results = take (clampLimit (limit_or_10 options))
          (sort_key (\<lambda>r. - score r) (map (lexical_only (weight_or 0.4 (bm25Weight options))) bm)))"
proof -
  define wb where "wb = weight_or 0.4 (bm25Weight options)"
  define wv where "wv = weight_or 0.6 (vectorWeight options)"
  define K where "K = clampLimit (limit_or_10 options)"
  define combined where
    "combined = map (combine wb wv) (map snd (foldl add_vector (foldl add_bm25 [] bm) []))"
  define results where "results = take K (sort_key (\<lambda>r. - score r) combined)"
  have hy: "searchHybrid env db query options = (Inr results, c1 @ c2)"
    using searchHybrid_unfold[OF assms(1)] assms(2)
    by (simp add: results_def combined_def wb_def wv_def K_def)
  note f = fused_combined[OF fused_all combined_def]
  have sc: "\<forall>r \<in> set combined.
        score r = score_in bm (chunkId r) * wb \<and>
        bm25Score r = score_in bm (chunkId r) \<and> vectorScore r = 0"
    using f(3) by (simp add: score_in_Nil)
  have tk: "top_k_of K combined results" "sorted_wrt (\<lambda>a b. score a \<ge> score b) results"
    unfolding results_def using take_sort_top_k by blast+
  have dc: "results = take K (sort_key (\<lambda>r. - score r) (map (lexical_only wb) bm))"
    if "distinct (map chunkId bm)"
  proof -
    have "combined = map (lexical_only wb) bm"
      by (simp add: combined_def foldl_add_bm25_distinct[OF that] comp_def combine_lexical)
    then show ?thesis by (simp add: results_def)
  qed
  show ?thesis
    apply (rule exI[of _ results], rule exI[of _ combined])
    using hy f(1,2) sc tk dc top_k_subset[OF tk(1)]
    by (simp add: wb_def K_def)
qed

text \<open>
  Claim C6. Let \<open>wb\<close> be the lexical weight of the options (0.4 when they give none)
  and \<open>K\<close> the clamped limit. When the lexical leg returns \<open>bm\<close> and the vector leg raises
  an error, hybrid search returns: its result has one entry for every chunk of \<open>bm\<close> and
  no other, each with vector score 0 and final score \<open>lexical score \<times> wb\<close>, sorted by
  descending score and truncated to \<open>K\<close>. When the chunk ids of \<open>bm\<close> are distinct the
  result is \<open>bm\<close> itself, rescored, sorted and truncated.
\<close>

theorem hybrid_degrades_to_lexical:
  assumes "legOptions =
       \<lparr>limit = Some (case (case limit options of None \<Rightarrow> Num 10 | Some l \<Rightarrow> l) of
                        Num r \<Rightarrow> Num (3 * r) | NotFinite \<Rightarrow> NotFinite),
        collectionName = collectionName options, bm25Weight = None, vectorWeight = None\<rparr>"
    and "searchBM25 env db query legOptions = (Inr bm, c1)"
    and "searchVector env db query legOptions = (Inl e, c2)"
  shows "\<exists>wb K results combined.
     wb = (case bm25Weight options of None \<Rightarrow> 4 / 10 | Some w \<Rightarrow> w) \<and>
     K = (case (case limit options of None \<Rightarrow> Num 10 | Some l \<Rightarrow> l) of
            Num r \<Rightarrow> nat (max 1 (min 100 \<lfloor>r\<rfloor>)) | NotFinite \<Rightarrow> 10) \<and>
     searchHybrid env db query options = (Inr results, c1 @ c2) \<and>
     distinct (map chunkId combined) \<and>
     chunkId ` set combined = chunkId ` set bm \<and>
     (\<forall>r \<in> set combined.
        score r = score_in bm (chunkId r) * wb \<and>
        bm25Score r = score_in bm (chunkId r) \<and> vectorScore r = 0) \<and>
     set results \<subseteq> set combined \<and>
     top_k_of K combined results \<and>
     sorted_wrt (\<lambda>a b. score a \<ge> score b) results \<and>
     (distinct (map chunkId bm) \<longrightarrow>
        results = take K (sort_key (\<lambda>r. - score r) (map (lexical_only wb) bm)))"
proof -
  have lo: "leg_options options = legOptions"
    unfolding assms(1) by (rule leg_options_explicit)
  from searchHybrid_lexical[of env db query options bm c1 e c2] assms(2,3)
  show ?thesis
    unfolding lo clampLimit_explicit weight_or_cases by blast
qed

lemma example_leg_options:
  "leg_options weighted_options = 
       \<lparr>limit = Some (Num 6), collectionName = None, bm25Weight = None, vectorWeight = None\<rparr>"
  "leg_options default_options =
     \<lparr>limit = Some (Num 30), collectionName = None, bm25Weight = None, vectorWeight = None\<rparr>"
  by (simp_all add: leg_options_def times3_def limit_or_10_def weighted_options_def default_options_def)

lemma example_bm25_leg:
  assumes "l = 6 \<or> l = 30"
  shows "searchBM25 example_env vector_db (js ''foo'')
       \<lparr>limit = Some (Num l), collectionName = None, bm25Weight = None, vectorWeight = None\<rparr> =
     (Inr [\<lparr>chunkId = 2, res_text = js ''foo bar'', res_filePath = js ''/n/a.md'', res_startLine = 3,
            res_endLine = 4, collection = js ''notes'', score = 1, rawScore = - 4\<rparr>,
           \<lparr>chunkId = 1, res_text = js ''foo'', res_filePath = js ''/n/a.md'', res_startLine = 1,
            res_endLine = 2, collection = js ''notes'', score = 1 / 2, rawScore = - 2\<rparr>],
      [FtsQuery (34 # js ''foo'' @ [34])])"
  using assms by (auto simp add: search_eval vector_db_def)

lemma example_vector_leg:
  assumes "l = 6 \<or> l = 30"
  shows "searchVector example_env vector_db (js ''foo'')
       \<lparr>limit = Some (Num l), collectionName = None, bm25Weight = None, vectorWeight = None\<rparr> =
     (Inr [\<lparr>chunkId = 2, res_text = js ''foo bar'', res_filePath = js ''/n/a.md'', res_startLine = 3,
            res_endLine = 4, collection = js ''notes'', score = 1, rawScore = 1\<rparr>,
           \<lparr>chunkId = 1, res_text = js ''foo'', res_filePath = js ''/n/a.md'', res_startLine = 1,
            res_endLine = 2, collection = js ''notes'', score = 0, rawScore = - 1\<rparr>],
      [CountEmbeddings, EmbeddingRequest (js ''foo''), IterateEmbeddings])"
proof -
  have q: "generateQueryEmbedding example_env (js ''foo'') = Inr [1]"
    by (simp add: example_env_def)
  have n: "sql_count_embeddings vector_db None = 2"
    by (simp add: sql_count_embeddings_def truthy_def vector_db_def example_db_def)
  show ?thesis
    using assms
    by (auto simp add: searchVector_def Let_def n q vector_db_candidates clampLimit_def limit_or_10_def
        decode_examples example_cosine example_normalized entry_of_def admit_def)
qed

lemma example_bm25_leg_failing:
  "searchBM25 failing_env vector_db (js ''foo'') options =
     searchBM25 example_env vector_db (js ''foo'') options"
  by (simp add: searchBM25_def sql_bm25_def failing_env_def example_env_def Let_def)

lemma example_vector_leg_failing:
  "searchVector failing_env vector_db (js ''foo'') 
       \<lparr>limit = Some (Num 6), collectionName = None, bm25Weight = None, vectorWeight = None\<rparr> =
     (Inl (Error ''OpenAI API key not found''), [CountEmbeddings, EmbeddingRequest (js ''foo'')])"
  by (simp add: searchVector_def Let_def sql_count_embeddings_def truthy_def failing_env_def)
    (simp add: vector_db_def example_db_def)

lemma example_hybrid:
  "searchHybrid example_env vector_db (js ''foo'') weighted_options =
     (Inr [\<lparr>chunkId = 2, res_text = js ''foo bar'', res_filePath = js ''/n/a.md'', res_startLine = 3,
            res_endLine = 4, collection = js ''notes'', score = 3 / 4,
            rawScore = \<lparr>bm25 = 1, vector = 1\<rparr>, bm25Score = 1, vectorScore = 1\<rparr>,
           \<lparr>chunkId = 1, res_text = js ''foo'', res_filePath = js ''/n/a.md'', res_startLine = 1,
            res_endLine = 2, collection = js ''notes'', score = 1 / 4,
            rawScore = \<lparr>bm25 = 1 / 2, vector = 0\<rparr>, bm25Score = 1 / 2, vectorScore = 0\<rparr>],
      [FtsQuery (34 # js ''foo'' @ [34]), CountEmbeddings, EmbeddingRequest (js ''foo''), IterateEmbeddings])"
proof -
  have six: "(6 :: real) = 6 \<or> (6 :: real) = 30" by simp
  note bm = example_bm25_leg[OF six, folded example_leg_options(1)]
  note vec = example_vector_leg[OF six, folded example_leg_options(1)]
  show ?thesis
    unfolding searchHybrid_unfold[OF bm] vec
    by (simp add: add_bm25_def add_vector_def combine_def search_result.extend_def weight_or_def
        weighted_options_def limit_or_10_def clampLimit_def)
qed

lemma example_hybrid_default:
  "searchHybrid example_env vector_db (js ''foo'') default_options =
     (Inr [\<lparr>chunkId = 2, res_text = js ''foo bar'', res_filePath = js ''/n/a.md'', res_startLine = 3,
            res_endLine = 4, collection = js ''notes'', score = 1, rawScore = \<lparr>bm25 = 1, vector = 1\<rparr>,
            bm25Score = 1, vectorScore = 1\<rparr>,
           \<lparr>chunkId = 1, res_text = js ''foo'', res_filePath = js ''/n/a.md'', res_startLine = 1,
            res_endLine = 2, collection = js ''notes'', score = 1 / 5,
            rawScore = \<lparr>bm25 = 1 / 2, vector = 0\<rparr>, bm25Score = 1 / 2, vectorScore = 0\<rparr>],
      [FtsQuery (34 # js ''foo'' @ [34]), CountEmbeddings, EmbeddingRequest (js ''foo''), IterateEmbeddings])"
proof -
  have thirty: "(30 :: real) = 6 \<or> (30 :: real) = 30" by simp
  note bm = example_bm25_leg[OF thirty, folded example_leg_options(2)]
  note vec = example_vector_leg[OF thirty, folded example_leg_options(2)]
  show ?thesis
    unfolding searchHybrid_unfold[OF bm] vec
    by (simp add: add_bm25_def add_vector_def combine_def search_result.extend_def weight_or_def
        default_options_def limit_or_10_def clampLimit_def)
qed

theorem hybrid_search_scores_witness:
  "weighted_options =
     \<lparr>limit = Some (Num 2), collectionName = None, bm25Weight = Some (1 / 2),
      vectorWeight = Some (1 / 4)\<rparr> \<and>
   (\<exists>results calls bm vec.
     searchHybrid example_env vector_db (js ''foo'') weighted_options = (Inr results, calls) \<and>
     searchBM25 example_env vector_db (js ''foo'') 
       \<lparr>limit = Some (Num 6), collectionName = None, bm25Weight = None, vectorWeight = None\<rparr>
       = (Inr bm, [FtsQuery (34 # js ''foo'' @ [34])]) \<and>
     searchVector example_env vector_db (js ''foo'') 
       \<lparr>limit = Some (Num 6), collectionName = None, bm25Weight = None, vectorWeight = None\<rparr>
       = (Inr vec, [CountEmbeddings, EmbeddingRequest (js ''foo''), IterateEmbeddings]) \<and>
     map (\<lambda>r. (chunkId r, score r)) bm = [(2, 1), (1, 1 / 2)] \<and>
     map (\<lambda>r. (chunkId r, score r)) vec = [(2, 1), (1, 0)] \<and>
     map (\<lambda>r. (chunkId r, score r)) results =
       [(2, 1 * (1 / 2) + 1 * (1 / 4)), (1, 1 / 2 * (1 / 2) + 0 * (1 / 4))] \<and>
     sorted_wrt (\<lambda>a b. score a \<ge> score b) results \<and> length results \<le> 2) \<and>
   (\<exists>results calls.
     searchHybrid example_env vector_db (js ''foo'') default_options = (Inr results, calls) \<and>
     map (\<lambda>r. (chunkId r, score r)) results =
       [(2, 1 * (4 / 10) + 1 * (6 / 10)), (1, 1 / 2 * (4 / 10) + 0 * (6 / 10))])"
proof -
  have six: "(6 :: real) = 6 \<or> (6 :: real) = 30" by simp
  from hybrid_search_scores[OF example_hybrid] have
    srt: "sorted_wrt (\<lambda>a b. score a \<ge> score b)
       [\<lparr>chunkId = 2, res_text = js ''foo bar'', res_filePath = js ''/n/a.md'', res_startLine = 3,
            res_endLine = 4, collection = js ''notes'', score = 3 / 4,
            rawScore = \<lparr>bm25 = 1, vector = 1\<rparr>, bm25Score = 1, vectorScore = 1\<rparr>,
           \<lparr>chunkId = 1, res_text = js ''foo'', res_filePath = js ''/n/a.md'', res_startLine = 1,
            res_endLine = 2, collection = js ''notes'', score = 1 / 4,
            rawScore = \<lparr>bm25 = 1 / 2, vector = 0\<rparr>, bm25Score = 1 / 2, vectorScore = 0\<rparr>]"
    by blast
  show ?thesis
    using srt example_hybrid example_hybrid_default example_bm25_leg[OF six] example_vector_leg[OF six]
    by (simp add: weighted_options_def)
qed

text \<open>
  Claim C2 as stated fails for a limit below 1: with limit 0 hybrid search returns one
  result, from one candidate of each leg.
\<close>

theorem hybrid_limit_counterexample:
  "\<exists>results calls.
     searchHybrid example_env vector_db (js ''foo'')
       \<lparr>limit = Some (Num 0), collectionName = None, bm25Weight = None, vectorWeight = None\<rparr>
       = (Inr results, calls) \<and>
     map chunkId results = [2] \<and> \<not> length results \<le> 0"
proof -
  define options where
    "options = \<lparr>limit = Some (Num 0), collectionName = None, bm25Weight = None, vectorWeight = None\<rparr>"
  have bm: "searchBM25 example_env vector_db (js ''foo'') (leg_options options) =
     (Inr [\<lparr>chunkId = 2, res_text = js ''foo bar'', res_filePath = js ''/n/a.md'', res_startLine = 3,
            res_endLine = 4, collection = js ''notes'', score = 1, rawScore = - 4\<rparr>],
      [FtsQuery (34 # js ''foo'' @ [34])])"
    by (simp add: search_eval vector_db_def leg_options_def times3_def options_def)
  have q: "generateQueryEmbedding example_env (js ''foo'') = Inr [1]"
    by (simp add: example_env_def)
  have n: "sql_count_embeddings vector_db None = 2"
    by (simp add: sql_count_embeddings_def truthy_def vector_db_def example_db_def)
  have vec: "searchVector example_env vector_db (js ''foo'') (leg_options options) =
     (Inr [\<lparr>chunkId = 2, res_text = js ''foo bar'', res_filePath = js ''/n/a.md'', res_startLine = 3,
            res_endLine = 4, collection = js ''notes'', score = 1, rawScore = 1\<rparr>],
      [CountEmbeddings, EmbeddingRequest (js ''foo''), IterateEmbeddings])"
    by (simp add: searchVector_def Let_def n q vector_db_candidates clampLimit_def limit_or_10_def
        decode_examples example_cosine example_normalized entry_of_def admit_def
        min_index_loop.simps leg_options_def times3_def options_def)
  have "searchHybrid example_env vector_db (js ''foo'') options =
     (Inr [\<lparr>chunkId = 2, res_text = js ''foo bar'', res_filePath = js ''/n/a.md'', res_startLine = 3,
            res_endLine = 4, collection = js ''notes'', score = 1, rawScore = \<lparr>bm25 = 1, vector = 1\<rparr>,
            bm25Score = 1, vectorScore = 1\<rparr>],
      [FtsQuery (34 # js ''foo'' @ [34]), CountEmbeddings, EmbeddingRequest (js ''foo''), IterateEmbeddings])"
    unfolding searchHybrid_unfold[OF bm] vec
    by (simp add: add_bm25_def add_vector_def combine_def search_result.extend_def weight_or_def
        options_def limit_or_10_def clampLimit_def)
  then show ?thesis
    unfolding options_def by simp
qed

theorem hybrid_degrades_to_lexical_witness:
  "\<exists>bm results.
     searchBM25 failing_env vector_db (js ''foo'') 
       \<lparr>limit = Some (Num 6), collectionName = None, bm25Weight = None, vectorWeight = None\<rparr>
       = (Inr bm, [FtsQuery (34 # js ''foo'' @ [34])]) \<and>
     map (\<lambda>r. (chunkId r, score r)) bm = [(2, 1), (1, 1 / 2)] \<and>
     searchVector failing_env vector_db (js ''foo'') 
       \<lparr>limit = Some (Num 6), collectionName = None, bm25Weight = None, vectorWeight = None\<rparr>
       = (Inl (Error ''OpenAI API key not found''), [CountEmbeddings, EmbeddingRequest (js ''foo'')]) \<and>
     searchHybrid failing_env vector_db (js ''foo'') weighted_options =
       (Inr results, [FtsQuery (34 # js ''foo'' @ [34]), CountEmbeddings, EmbeddingRequest (js ''foo'')]) \<and>
     map (\<lambda>r. (chunkId r, score r, vectorScore r)) results =
       [(2, 1 * (1 / 2), 0), (1, 1 / 2 * (1 / 2), 0)]"
proof -
  define legOptions where "legOptions = 
       \<lparr>limit = Some (Num 6), collectionName = None, bm25Weight = None, vectorWeight = None\<rparr>"
  have lo: "legOptions =
       \<lparr>limit = Some (case (case limit weighted_options of None \<Rightarrow> Num 10 | Some l \<Rightarrow> l) of
                        Num r \<Rightarrow> Num (3 * r) | NotFinite \<Rightarrow> NotFinite),
        collectionName = collectionName weighted_options, bm25Weight = None, vectorWeight = None\<rparr>"
    by (simp add: legOptions_def weighted_options_def)
  have six: "(6 :: real) = 6 \<or> (6 :: real) = 30" by simp
  have bm: "searchBM25 failing_env vector_db (js ''foo'') legOptions =
     (Inr [\<lparr>chunkId = 2, res_text = js ''foo bar'', res_filePath = js ''/n/a.md'', res_startLine = 3,
            res_endLine = 4, collection = js ''notes'', score = 1, rawScore = - 4\<rparr>,
           \<lparr>chunkId = 1, res_text = js ''foo'', res_filePath = js ''/n/a.md'', res_startLine = 1,
            res_endLine = 2, collection = js ''notes'', score = 1 / 2, rawScore = - 2\<rparr>],
      [FtsQuery (34 # js ''foo'' @ [34])])"
    unfolding example_bm25_leg_failing legOptions_def by (rule example_bm25_leg[OF six])
  have vec: "searchVector failing_env vector_db (js ''foo'') legOptions =
     (Inl (Error ''OpenAI API key not found''), [CountEmbeddings, EmbeddingRequest (js ''foo'')])"
    unfolding legOptions_def by (rule example_vector_leg_failing)
  from hybrid_degrades_to_lexical[OF lo bm vec]
  obtain results where
    r: "searchHybrid failing_env vector_db (js ''foo'') weighted_options =
       (Inr results, [FtsQuery (34 # js ''foo'' @ [34])] @ [CountEmbeddings, EmbeddingRequest (js ''foo'')])"
    and eq: "results =
        take (case (case limit weighted_options of None \<Rightarrow> Num 10 | Some l \<Rightarrow> l) of
            Num r \<Rightarrow> nat (max 1 (min 100 \<lfloor>r\<rfloor>)) | NotFinite \<Rightarrow> 10)
          (sort_key (\<lambda>r. - score r)
            (map (lexical_only (case bm25Weight weighted_options of None \<Rightarrow> 4 / 10 | Some w \<Rightarrow> w))
            [\<lparr>chunkId = 2, res_text = js ''foo bar'', res_filePath = js ''/n/a.md'', res_startLine = 3,
            res_endLine = 4, collection = js ''notes'', score = 1, rawScore = - 4\<rparr>,
           \<lparr>chunkId = 1, res_text = js ''foo'', res_filePath = js ''/n/a.md'', res_startLine = 1,
            res_endLine = 2, collection = js ''notes'', score = 1 / 2, rawScore = - 2\<rparr>]))"
    by auto
  have "map (\<lambda>r. (chunkId r, score r, vectorScore r)) results =
       [(2, 1 * (1 / 2), 0), (1, 1 / 2 * (1 / 2), 0)]"
    unfolding eq
    by (simp add: lexical_only_def weighted_options_def)
  with r bm vec show ?thesis unfolding legOptions_def by simp
qed

subsection \<open>Indexing\<close>

lemma foldr_max_ge: "seq \<le> foldr max ids (seq :: nat) \<and> (\<forall>i \<in> set ids. i \<le> foldr max ids seq)"
  by (induction ids) (auto simp: max_def)

lemma next_id_fresh: "seq < next_id seq ids" "i \<in> set ids \<Longrightarrow> i < next_id seq ids"
  using foldr_max_ge[of seq ids] by (auto simp: next_id_def less_Suc_eq_le)

subsubsection \<open>Deleting a file row\<close>

lemma delete_fields:
  "tbl_collections (delete_file_metadata fid db) = tbl_collections db"
  "tbl_file_metadata (delete_file_metadata fid db) = filter (\<lambda>r. fm_id r \<noteq> fid) (tbl_file_metadata db)"
  "tbl_chunks (delete_file_metadata fid db) = filter (\<lambda>c. file_metadata_id c \<noteq> fid) (tbl_chunks db)"
  "tbl_embeddings (delete_file_metadata fid db) =
     filter (\<lambda>e. emb_chunk_id e \<notin> chunk_id ` {c \<in> set (tbl_chunks db). file_metadata_id c = fid})
       (tbl_embeddings db)"
  "seq_file_metadata (delete_file_metadata fid db) = seq_file_metadata db"
  "seq_chunks (delete_file_metadata fid db) = seq_chunks db"
  by (simp_all add: delete_file_metadata_def Let_def)

lemma delete_store_ok: "store_ok db \<Longrightarrow> store_ok (delete_file_metadata fid db)"
  by (simp add: store_ok_def delete_fields distinct_map_filter)

lemma delete_purged_keep: "purged fid cids db \<Longrightarrow> purged fid cids (delete_file_metadata g db)"
  by (auto simp: purged_def delete_fields)

lemma delete_purges:
  assumes "store_ok db" "fid \<le> seq_file_metadata db"
  shows "purged fid (chunk_id ` {c \<in> set (tbl_chunks db). file_metadata_id c = fid})
           (delete_file_metadata fid db)"
proof -
  have uniq: "\<And>k x. k \<in> set (tbl_chunks db) \<Longrightarrow> x \<in> set (tbl_chunks db) \<Longrightarrow> chunk_id k = chunk_id x \<Longrightarrow> k = x"
    using assms(1) by (auto simp: store_ok_def distinct_map inj_on_def)
  have bound: "\<forall>c \<in> set (tbl_chunks db). chunk_id c \<le> seq_chunks db"
    using assms(1) by (simp add: store_ok_def)
  have "k \<notin> chunk_id ` set (tbl_chunks (delete_file_metadata fid db)) \<and>
        k \<le> seq_chunks (delete_file_metadata fid db) \<and>
        k \<notin> emb_chunk_id ` set (tbl_embeddings (delete_file_metadata fid db))"
    if k: "k \<in> chunk_id ` {c \<in> set (tbl_chunks db). file_metadata_id c = fid}" for k
  proof -
    from k obtain c where c: "c \<in> set (tbl_chunks db)" "file_metadata_id c = fid" "k = chunk_id c"
      by blast
    have "file_metadata_id x = fid" if "x \<in> set (tbl_chunks db)" "chunk_id x = k" for x
    proof -
      have "chunk_id c = chunk_id x" using that(2) c(3) by simp
      from uniq[OF c(1) that(1) this] show ?thesis using c(2) by simp
    qed
    then have "k \<notin> chunk_id ` set (tbl_chunks (delete_file_metadata fid db))"
      unfolding delete_fields by auto
    moreover have "k \<le> seq_chunks (delete_file_metadata fid db)"
      using bound c(1,3) by (simp add: delete_fields)
    moreover have "k \<notin> emb_chunk_id ` set (tbl_embeddings (delete_file_metadata fid db))"
    proof
      assume "k \<in> emb_chunk_id ` set (tbl_embeddings (delete_file_metadata fid db))"
      then obtain e where "e \<in> set (tbl_embeddings (delete_file_metadata fid db))" "k = emb_chunk_id e"
        by blast
      then have "k \<notin> chunk_id ` {c \<in> set (tbl_chunks db). file_metadata_id c = fid}"
        by (simp add: delete_fields)
      with k show False by simp
    qed
    ultimately show ?thesis by simp
  qed
  moreover have "fid \<notin> fm_id ` set (tbl_file_metadata (delete_file_metadata fid db))"
    unfolding delete_fields by auto
  moreover have "\<forall>c \<in> set (tbl_chunks (delete_file_metadata fid db)). file_metadata_id c \<noteq> fid"
    unfolding delete_fields by auto
  ultimately show ?thesis
    unfolding purged_def using assms(2) by (simp add: delete_fields(5))
qed

lemma chunk_ids_of_delete:
  "g \<noteq> fid \<Longrightarrow> chunk_ids_of (delete_file_metadata fid db) g = chunk_ids_of db g"
  by (auto simp: chunk_ids_of_def delete_fields)

subsubsection \<open>Inserting a file row and its chunks\<close>

lemma insert_file_metadata_ok:
  assumes "(cid, path) \<notin> file_key ` set (tbl_file_metadata db)"
    and "cid \<in> col_id ` set (tbl_collections db)"
  shows "insert_file_metadata cid path h db =
     Inr (next_id (seq_file_metadata db) (map fm_id (tbl_file_metadata db)),
          db\<lparr>tbl_file_metadata := tbl_file_metadata db @
                [\<lparr>fm_id = next_id (seq_file_metadata db) (map fm_id (tbl_file_metadata db)),
                  collection_id = cid, file_path = path, file_hash = h\<rparr>],
             seq_file_metadata := next_id (seq_file_metadata db) (map fm_id (tbl_file_metadata db))\<rparr>)"
proof -
  have "\<not> list_ex (\<lambda>r. collection_id r = cid \<and> file_path r = path) (tbl_file_metadata db)"
    using assms(1) by (force simp: list_ex_iff file_key_def image_iff)
  moreover have "list_ex (\<lambda>c. col_id c = cid) (tbl_collections db)"
    using assms(2) by (auto simp: list_ex_iff)
  ultimately show ?thesis
    by (simp add: insert_file_metadata_def Let_def)
qed

lemma insert_file_metadata_result:
  assumes "insert_file_metadata cid path h db = Inr (fid, db')"
  shows "fid = next_id (seq_file_metadata db) (map fm_id (tbl_file_metadata db))"
    and "tbl_file_metadata db' = tbl_file_metadata db @
                [\<lparr>fm_id = fid, collection_id = cid, file_path = path, file_hash = h\<rparr>]"
    and "seq_file_metadata db' = fid" and "tbl_chunks db' = tbl_chunks db"
    and "tbl_embeddings db' = tbl_embeddings db" and "seq_chunks db' = seq_chunks db"
    and "tbl_collections db' = tbl_collections db"
    and "(cid, path) \<notin> file_key ` set (tbl_file_metadata db)"
proof -
  have a: "\<not> list_ex (\<lambda>r. collection_id r = cid \<and> file_path r = path) (tbl_file_metadata db)"
    using assms by (auto simp: insert_file_metadata_def split: if_splits)
  then show "(cid, path) \<notin> file_key ` set (tbl_file_metadata db)"
    by (auto simp: list_ex_iff file_key_def)
  from assms a have b: "fid = next_id (seq_file_metadata db) (map fm_id (tbl_file_metadata db)) \<and>
    db' = db\<lparr>tbl_file_metadata := tbl_file_metadata db @
                [\<lparr>fm_id = next_id (seq_file_metadata db) (map fm_id (tbl_file_metadata db)),
                  collection_id = cid, file_path = path, file_hash = h\<rparr>],
             seq_file_metadata := next_id (seq_file_metadata db) (map fm_id (tbl_file_metadata db))\<rparr>"
    by (auto simp add: insert_file_metadata_def Let_def split: if_splits)
  then show "fid = next_id (seq_file_metadata db) (map fm_id (tbl_file_metadata db))" by simp
  from b show "tbl_file_metadata db' = tbl_file_metadata db @
                [\<lparr>fm_id = fid, collection_id = cid, file_path = path, file_hash = h\<rparr>]" by simp
  from b show "seq_file_metadata db' = fid" by simp
  from b show "tbl_chunks db' = tbl_chunks db" by simp
  from b show "tbl_embeddings db' = tbl_embeddings db" by simp
  from b show "seq_chunks db' = seq_chunks db" by simp
  from b show "tbl_collections db' = tbl_collections db" by simp
qed

lemma insert_file_metadata_store_ok:
  assumes "insert_file_metadata cid path h db = Inr (fid, db')" "store_ok db"
  shows "store_ok db'"
proof -
  note r = insert_file_metadata_result[OF assms(1)]
  have fresh: "\<forall>x \<in> set (tbl_file_metadata db). fm_id x < fid"
    using next_id_fresh(2)[of _ "map fm_id (tbl_file_metadata db)" "seq_file_metadata db"] r(1) by simp
  then have "fid \<notin> fm_id ` set (tbl_file_metadata db)" by auto
  with assms(2) r fresh show ?thesis
    by (auto simp: store_ok_def file_key_def less_imp_le)
qed

lemma insert_file_metadata_purged:
  assumes "insert_file_metadata cid path h db = Inr (fid, db')" "purged g cids db"
  shows "purged g cids db'"
proof -
  note r = insert_file_metadata_result[OF assms(1)]
  have "seq_file_metadata db < fid"
    using next_id_fresh(1)[of "seq_file_metadata db" "map fm_id (tbl_file_metadata db)"] r(1) by simp
  with assms(2) show ?thesis
    by (auto simp: purged_def r)
qed

lemma insert_chunk_result:
  assumes "insert_chunk fid chunk db = Inr db'"
  shows "tbl_file_metadata db' = tbl_file_metadata db" "tbl_collections db' = tbl_collections db"
    and "tbl_embeddings db' = tbl_embeddings db" and "seq_file_metadata db' = seq_file_metadata db"
    and "fid \<in> fm_id ` set (tbl_file_metadata db)"
    and "\<exists>row. tbl_chunks db' = tbl_chunks db @ [row] \<and> file_metadata_id row = fid \<and>
           chunk_id row = next_id (seq_chunks db) (map chunk_id (tbl_chunks db)) \<and>
           seq_chunks db' = chunk_id row"
proof -
  have a: "list_ex (\<lambda>r. fm_id r = fid) (tbl_file_metadata db)"
    using assms by (auto simp: insert_chunk_def split: if_splits)
  then show "fid \<in> fm_id ` set (tbl_file_metadata db)"
    by (auto simp: list_ex_iff)
  from assms a have b: "db' = db\<lparr>tbl_chunks := tbl_chunks db @
                      [\<lparr>chunk_id = next_id (seq_chunks db) (map chunk_id (tbl_chunks db)),
                        file_metadata_id = fid,
                        chunk_index = chunkIndex chunk, chunk_text = text_of chunk,
                        start_line = startLine chunk, end_line = endLine chunk,
                        token_count = tokenCount chunk\<rparr>],
                   seq_chunks := next_id (seq_chunks db) (map chunk_id (tbl_chunks db))\<rparr>"
    by (simp add: insert_chunk_def Let_def)
  from b show "tbl_file_metadata db' = tbl_file_metadata db" by simp
  from b show "tbl_collections db' = tbl_collections db" by simp
  from b show "tbl_embeddings db' = tbl_embeddings db" by simp
  from b show "seq_file_metadata db' = seq_file_metadata db" by simp
  from b show "\<exists>row. tbl_chunks db' = tbl_chunks db @ [row] \<and> file_metadata_id row = fid \<and>
           chunk_id row = next_id (seq_chunks db) (map chunk_id (tbl_chunks db)) \<and>
           seq_chunks db' = chunk_id row"
    by simp
qed

lemma insert_chunk_ok:
  "fid \<in> fm_id ` set (tbl_file_metadata db) \<Longrightarrow> \<exists>db'. insert_chunk fid chunk db = Inr db'"
  by (auto simp: insert_chunk_def list_ex_iff Let_def)

lemma insert_chunk_store_ok:
  assumes "insert_chunk fid chunk db = Inr db'" "store_ok db"
  shows "store_ok db'"
proof -
  note r = insert_chunk_result[OF assms(1)]
  from r(6) obtain row where row: "tbl_chunks db' = tbl_chunks db @ [row]"
    "chunk_id row = next_id (seq_chunks db) (map chunk_id (tbl_chunks db))" "seq_chunks db' = chunk_id row"
    by blast
  have "\<forall>c \<in> set (tbl_chunks db). chunk_id c < chunk_id row"
    using next_id_fresh(2)[of _ "map chunk_id (tbl_chunks db)" "seq_chunks db"] row(2) by simp
  with assms(2) show ?thesis
    by (auto simp: store_ok_def r(1,2,4) row less_imp_le)
qed

lemma insert_chunk_purged:
  assumes "insert_chunk fid chunk db = Inr db'" "purged g cids db"
  shows "purged g cids db'"
proof -
  note r = insert_chunk_result[OF assms(1)]
  from r(6) obtain row where row: "tbl_chunks db' = tbl_chunks db @ [row]" "file_metadata_id row = fid"
    "chunk_id row = next_id (seq_chunks db) (map chunk_id (tbl_chunks db))" "seq_chunks db' = chunk_id row"
    by blast
  have lt: "seq_chunks db < chunk_id row"
    using next_id_fresh(1)[of "seq_chunks db" "map chunk_id (tbl_chunks db)"] row(3) by simp
  have ne: "fid \<noteq> g" using r(5) assms(2) by (auto simp: purged_def)
  from assms(2) lt ne show ?thesis
    by (auto simp: purged_def r(1,3,4) row)
qed

lemma insert_chunk_chunk_ids:
  assumes "insert_chunk fid ch db = Inr db'" "g \<noteq> fid"
  shows "chunk_ids_of db' g = chunk_ids_of db g"
proof -
  from insert_chunk_result(6)[OF assms(1)] obtain row where
    "tbl_chunks db' = tbl_chunks db @ [row]" "file_metadata_id row = fid" by blast
  then show ?thesis using assms(2) by (auto simp: chunk_ids_of_def)
qed

lemma insert_chunks_props:
  assumes "fid \<in> fm_id ` set (tbl_file_metadata db)"
  shows "\<exists>db'. insert_chunks fid chs n db = Inr (n + length chs, db') \<and>
           tbl_file_metadata db' = tbl_file_metadata db \<and> tbl_collections db' = tbl_collections db \<and>
           (store_ok db \<longrightarrow> store_ok db') \<and> (\<forall>g cids. purged g cids db \<longrightarrow> purged g cids db') \<and>
           (\<forall>g. g \<noteq> fid \<longrightarrow> chunk_ids_of db' g = chunk_ids_of db g)"
  using assms
proof (induction chs arbitrary: n db)
  case Nil
  show ?case by simp
next
  case (Cons ch chs)
  from insert_chunk_ok[OF Cons.prems] obtain db1 where db1: "insert_chunk fid ch db = Inr db1"
    by blast
  note r = insert_chunk_result[OF db1]
  have "fid \<in> fm_id ` set (tbl_file_metadata db1)" using Cons.prems by (simp add: r(1))
  from Cons.IH[OF this, of "n + 1"] obtain db' where
    db': "insert_chunks fid chs (n + 1) db1 = Inr (n + 1 + length chs, db')"
      "tbl_file_metadata db' = tbl_file_metadata db1" "tbl_collections db' = tbl_collections db1"
      "store_ok db1 \<longrightarrow> store_ok db'" "\<forall>g cids. purged g cids db1 \<longrightarrow> purged g cids db'"
      "\<forall>g. g \<noteq> fid \<longrightarrow> chunk_ids_of db' g = chunk_ids_of db1 g"
    by blast
  show ?case
    using db' db1 r(1,2) insert_chunk_store_ok[OF db1] insert_chunk_purged[OF db1]
      insert_chunk_chunk_ids[OF db1]
    by (intro exI[of _ db']) simp
qed

subsubsection \<open>Indexing one file\<close>

lemma key_unique:
  assumes "store_ok db" "r \<in> set (tbl_file_metadata db)" "x \<in> set (tbl_file_metadata db)"
    and "file_key x = file_key r"
  shows "x = r"
  using assms by (auto simp: store_ok_def distinct_map inj_on_def)

lemma id_unique:
  assumes "store_ok db" "r \<in> set (tbl_file_metadata db)" "x \<in> set (tbl_file_metadata db)"
    and "fm_id x = fm_id r"
  shows "x = r"
  using assms by (auto simp: store_ok_def distinct_map inj_on_def)

lemma find_file_metadata_None:
  "find_file_metadata db cid path = None \<longleftrightarrow> (cid, path) \<notin> file_key ` set (tbl_file_metadata db)"
proof -
  have "(\<exists>x. x \<in> set (tbl_file_metadata db) \<and> collection_id x = cid \<and> file_path x = path) \<longleftrightarrow>
        (\<exists>x \<in> set (tbl_file_metadata db). (cid, path) = file_key x)"
    unfolding file_key_def by blast
  then show ?thesis
    unfolding find_file_metadata_def find_None_iff image_iff by simp
qed

lemma find_file_metadata_Some:
  assumes "find_file_metadata db cid path = Some r"
  shows "r \<in> set (tbl_file_metadata db)" "file_key r = (cid, path)"
  using assms by (auto simp: find_file_metadata_def find_Some_iff file_key_def)

lemma delete_existing_props:
  assumes "store_ok db"
    and db1_def: "db1 = delete_existing (find_file_metadata db cid path) db"
  shows "store_ok db1" "tbl_collections db1 = tbl_collections db"
    and "purged g cids db \<Longrightarrow> purged g cids db1"
    and "(cid, path) \<notin> file_key ` set (tbl_file_metadata db1)"
    and "file_key x \<noteq> (cid, path) \<Longrightarrow>
           x \<in> set (tbl_file_metadata db1) \<longleftrightarrow> x \<in> set (tbl_file_metadata db)"
    and "x \<in> set (tbl_file_metadata db) \<Longrightarrow> file_key x \<noteq> (cid, path) \<Longrightarrow>
           chunk_ids_of db1 (fm_id x) = chunk_ids_of db (fm_id x)"
proof -
  show "store_ok db1"
    using assms(1) by (simp add: db1_def delete_existing_def delete_store_ok split: option.splits)
  show "tbl_collections db1 = tbl_collections db"
    by (simp add: db1_def delete_existing_def delete_fields split: option.splits)
  show "purged g cids db \<Longrightarrow> purged g cids db1"
    by (simp add: db1_def delete_existing_def delete_purged_keep split: option.splits)
  show "(cid, path) \<notin> file_key ` set (tbl_file_metadata db1)"
  proof (cases "find_file_metadata db cid path")
    case None
    then show ?thesis
      by (simp add: db1_def delete_existing_def find_file_metadata_None[symmetric])
  next
    case (Some r)
    note r = find_file_metadata_Some[OF Some]
    have "\<And>x. x \<in> set (tbl_file_metadata db) \<Longrightarrow> file_key x = (cid, path) \<Longrightarrow> x = r"
      using key_unique[OF assms(1) r(1)] r(2) by simp
    then show ?thesis
      by (auto simp: db1_def Some delete_existing_def delete_fields)
  qed
  show "x \<in> set (tbl_file_metadata db1) \<longleftrightarrow> x \<in> set (tbl_file_metadata db)"
    if x: "file_key x \<noteq> (cid, path)"
  proof (cases "find_file_metadata db cid path")
    case None
    then show ?thesis by (simp add: db1_def delete_existing_def)
  next
    case (Some r)
    note r = find_file_metadata_Some[OF Some]
    have "x \<in> set (tbl_file_metadata db) \<Longrightarrow> fm_id x \<noteq> fm_id r"
      using id_unique[OF assms(1) r(1), of x] r(2) x by auto
    then show ?thesis
      by (auto simp: db1_def Some delete_existing_def delete_fields)
  qed
  show "chunk_ids_of db1 (fm_id x) = chunk_ids_of db (fm_id x)"
    if x: "x \<in> set (tbl_file_metadata db)" "file_key x \<noteq> (cid, path)"
  proof (cases "find_file_metadata db cid path")
    case None
    then show ?thesis by (simp add: db1_def delete_existing_def)
  next
    case (Some r)
    note r = find_file_metadata_Some[OF Some]
    have "fm_id x \<noteq> fm_id r"
      using id_unique[OF assms(1) r(1), of x] r(2) x by auto
    then show ?thesis
      by (simp add: db1_def Some delete_existing_def chunk_ids_of_delete)
  qed
qed

lemma file_synced_cong:
  assumes "\<And>r. file_key r = (cid, path) \<Longrightarrow>
             r \<in> set (tbl_file_metadata db') \<longleftrightarrow> r \<in> set (tbl_file_metadata db)"
  shows "file_synced fs cid path db' = file_synced fs cid path db"
proof -
  have "(cid, path) \<in> file_key ` set (tbl_file_metadata db') \<longleftrightarrow>
        (cid, path) \<in> file_key ` set (tbl_file_metadata db)"
  proof -
    have "(\<exists>r \<in> set (tbl_file_metadata db'). file_key r = (cid, path)) \<longleftrightarrow>
          (\<exists>r \<in> set (tbl_file_metadata db). file_key r = (cid, path))"
      using assms by blast
    then show ?thesis unfolding image_iff by (simp add: eq_commute)
  qed
  moreover have "(\<exists>r \<in> set (tbl_file_metadata db'). file_key r = (cid, path) \<and> file_hash r = h) \<longleftrightarrow>
        (\<exists>r \<in> set (tbl_file_metadata db). file_key r = (cid, path) \<and> file_hash r = h)" for h
    using assms by blast
  ultimately show ?thesis
    by (simp add: file_synced_def split: sum.splits option.splits)
qed

lemma indexFile_props:
  assumes ok: "store_ok db" and fk: "cid \<in> col_id ` set (tbl_collections db)"
  shows "\<exists>res db'. indexFile fs cid path full db = Inr (res, db') \<and> store_ok db' \<and>
           tbl_collections db' = tbl_collections db \<and>
           (\<forall>g cids. purged g cids db \<longrightarrow> purged g cids db') \<and>
           (\<forall>r. file_key r \<noteq> (cid, path) \<longrightarrow>
                (r \<in> set (tbl_file_metadata db') \<longleftrightarrow> r \<in> set (tbl_file_metadata db))) \<and>
           (\<forall>r \<in> set (tbl_file_metadata db). file_key r \<noteq> (cid, path) \<longrightarrow>
                chunk_ids_of db' (fm_id r) = chunk_ids_of db (fm_id r)) \<and>
           file_synced fs cid path db'"
proof -
  define db1 where "db1 = delete_existing (find_file_metadata db cid path) db"
  note d = delete_existing_props[OF ok db1_def]
  have d6: "\<forall>r \<in> set (tbl_file_metadata db). file_key r \<noteq> (cid, path) \<longrightarrow>
                chunk_ids_of db1 (fm_id r) = chunk_ids_of db (fm_id r)"
    using d(6) by blast
  consider (missing) "\<not> existsSync fs path"
    | (unreadable) e where "existsSync fs path" "readFileSafe fs path = Inl e"
    | (binary) "existsSync fs path" "readFileSafe fs path = Inr None"
    | (same) content r where "existsSync fs path" "readFileSafe fs path = Inr (Some content)"
        "find_file_metadata db cid path = Some r" "file_hash r = hashContent fs content" "\<not> full"
    | (changed) content where "existsSync fs path" "readFileSafe fs path = Inr (Some content)"
        "\<not> ((case find_file_metadata db cid path of None \<Rightarrow> False
               | Some r \<Rightarrow> file_hash r = hashContent fs content) \<and> \<not> full)"
    by (cases "readFileSafe fs path"; cases "find_file_metadata db cid path"; force)
  then show ?thesis
  proof cases
    case missing
    then show ?thesis by (simp add: indexFile_def ok file_synced_def)
  next
    case unreadable
    then show ?thesis by (simp add: indexFile_def ok file_synced_def)
  next
    case binary
    have "indexFile fs cid path full db = Inr (NotIndexed reason.binary, db1)"
      using binary by (simp add: indexFile_def db1_def)
    moreover have "file_synced fs cid path db1"
      using binary d(4) by (simp add: file_synced_def)
    ultimately show ?thesis using d(1-5) d6 by simp
  next
    case same
    have "indexFile fs cid path full db = Inr (NotIndexed unchanged, db)"
      using same by (simp add: indexFile_def)
    moreover have "file_synced fs cid path db"
      using same find_file_metadata_Some[OF same(3)] by (auto simp: file_synced_def)
    ultimately show ?thesis using ok by simp
  next
    case changed
    define h where "h = hashContent fs content"
    have nochange: "\<not> ((case find_file_metadata db cid path of None \<Rightarrow> False
               | Some r \<Rightarrow> file_hash r = h) \<and> \<not> full)"
      using changed(3) unfolding h_def .
    have fk1: "cid \<in> col_id ` set (tbl_collections db1)" using fk d(2) by simp
    note ins = insert_file_metadata_ok[OF d(4) fk1, of h]
    then obtain fid db2 where db2: "insert_file_metadata cid path h db1 = Inr (fid, db2)"
      by blast
    note r = insert_file_metadata_result[OF db2]
    have "fid \<in> fm_id ` set (tbl_file_metadata db2)" by (simp add: r(2))
    from insert_chunks_props[OF this, of "chunkFile path content" 0] obtain db3 where
      db3: "insert_chunks fid (chunkFile path content) 0 db2 = Inr (0 + length (chunkFile path content), db3)"
        "tbl_file_metadata db3 = tbl_file_metadata db2" "tbl_collections db3 = tbl_collections db2"
        "store_ok db2 \<longrightarrow> store_ok db3" "\<forall>g cids. purged g cids db2 \<longrightarrow> purged g cids db3"
        "\<forall>g. g \<noteq> fid \<longrightarrow> chunk_ids_of db3 g = chunk_ids_of db2 g"
      by blast
    have fresh: "\<forall>x \<in> set (tbl_file_metadata db1). fm_id x \<noteq> fid"
      using next_id_fresh(2)[of _ "map fm_id (tbl_file_metadata db1)" "seq_file_metadata db1"] r(1)
      by fastforce
    have same_chunks: "chunk_ids_of db2 g = chunk_ids_of db1 g" for g
      by (simp add: chunk_ids_of_def r(4))
    have chunks: "\<forall>x \<in> set (tbl_file_metadata db). file_key x \<noteq> (cid, path) \<longrightarrow>
                chunk_ids_of db3 (fm_id x) = chunk_ids_of db (fm_id x)"
    proof (intro ballI impI)
      fix x
      assume x: "x \<in> set (tbl_file_metadata db)" "file_key x \<noteq> (cid, path)"
      then have "x \<in> set (tbl_file_metadata db1)" using d(5) by blast
      then have "fm_id x \<noteq> fid" using fresh by blast
      then have "chunk_ids_of db3 (fm_id x) = chunk_ids_of db1 (fm_id x)"
        using db3(6) same_chunks by simp
      then show "chunk_ids_of db3 (fm_id x) = chunk_ids_of db (fm_id x)"
        using d6 x by simp
    qed
    have run: "indexFile fs cid path full db = Inr (Indexed (length (chunkFile path content)), db3)"
      using changed(1,2) nochange db2 db3(1)
      by (simp add: indexFile_def db1_def[symmetric] h_def[symmetric] Let_def)
    have "store_ok db3"
      using db3(4) insert_file_metadata_store_ok[OF db2 d(1)] by simp
    moreover have "tbl_collections db3 = tbl_collections db"
      by (simp add: db3(3) r(7) d(2))
    moreover have "\<forall>g cids. purged g cids db \<longrightarrow> purged g cids db3"
      using db3(5) insert_file_metadata_purged[OF db2] d(3) by blast
    moreover have "\<forall>x. file_key x \<noteq> (cid, path) \<longrightarrow>
                (x \<in> set (tbl_file_metadata db3) \<longleftrightarrow> x \<in> set (tbl_file_metadata db))"
      using d(5) by (auto simp: db3(2) r(2) file_key_def)
    moreover have "file_synced fs cid path db3"
      using changed(1,2) by (auto simp: file_synced_def db3(2) r(2) file_key_def h_def)
    ultimately show ?thesis using run chunks by simp
  qed
qed

lemma indexFile_noop:
  assumes ok: "store_ok db" and sync: "file_synced fs cid path db"
  shows "\<exists>why. indexFile fs cid path False db = Inr (NotIndexed why, db)"
proof (cases "existsSync fs path")
  case False
  then show ?thesis by (simp add: indexFile_def)
next
  case True
  show ?thesis
  proof (cases "readFileSafe fs path")
    case (Inl e)
    then show ?thesis using True by (simp add: indexFile_def)
  next
    case (Inr c)
    show ?thesis
    proof (cases c)
      case None
      then have "find_file_metadata db cid path = None"
        using sync True Inr by (simp add: file_synced_def find_file_metadata_None)
      then show ?thesis using True Inr None by (simp add: indexFile_def delete_existing_def)
    next
      case (Some content)
      then obtain r where r: "r \<in> set (tbl_file_metadata db)" "file_key r = (cid, path)"
        "file_hash r = hashContent fs content"
        using sync True Inr by (auto simp: file_synced_def)
      then obtain x where x: "find_file_metadata db cid path = Some x"
        using find_file_metadata_None[of db cid path] by (cases "find_file_metadata db cid path") force+
      have "x = r"
        using key_unique[OF ok r(1), of x] find_file_metadata_Some[OF x] r(2) by simp
      then show ?thesis using True Inr Some x r(3) by (simp add: indexFile_def)
    qed
  qed
qed

subsubsection \<open>The two loops of the transaction\<close>

lemma remove_deleted_props:
  assumes "store_ok db"
  shows "\<exists>db'. remove_deleted files rows n db = (n + length (filter (stale files) rows), db') \<and>
           store_ok db' \<and> tbl_collections db' = tbl_collections db \<and>
           (\<forall>g cids. purged g cids db \<longrightarrow> purged g cids db') \<and>
           set (tbl_file_metadata db') =
             {r \<in> set (tbl_file_metadata db). fm_id r \<notin> fm_id ` {x \<in> set rows. stale files x}} \<and>
           (\<forall>x \<in> set rows. stale files x \<and> fm_id x \<le> seq_file_metadata db \<longrightarrow>
               purged (fm_id x) (chunk_ids_of db (fm_id x)) db') \<and>
           (\<forall>g. g \<notin> fm_id ` {x \<in> set rows. stale files x} \<longrightarrow>
               chunk_ids_of db' g = chunk_ids_of db g)"
  using assms
proof (induction rows arbitrary: n db)
  case Nil
  then show ?case by simp
next
  case (Cons x rows)
  show ?case
  proof (cases "stale files x")
    case False
    from Cons.IH[OF Cons.prems, of n] obtain db' where
      db': "remove_deleted files rows n db = (n + length (filter (stale files) rows), db')"
       "store_ok db'" "tbl_collections db' = tbl_collections db"
       "\<forall>g cids. purged g cids db \<longrightarrow> purged g cids db'"
       "set (tbl_file_metadata db') =
             {r \<in> set (tbl_file_metadata db). fm_id r \<notin> fm_id ` {x \<in> set rows. stale files x}}"
       "\<forall>x \<in> set rows. stale files x \<and> fm_id x \<le> seq_file_metadata db \<longrightarrow>
               purged (fm_id x) (chunk_ids_of db (fm_id x)) db'"
       "\<forall>g. g \<notin> fm_id ` {x \<in> set rows. stale files x} \<longrightarrow>
               chunk_ids_of db' g = chunk_ids_of db g"
      by blast
    have eq: "{y \<in> set (x # rows). stale files y} = {y \<in> set rows. stale files y}"
      using False by auto
    have "remove_deleted files (x # rows) n db = (n + length (filter (stale files) (x # rows)), db')"
      using False db'(1) by (simp add: stale_def)
    moreover have "\<forall>y \<in> set (x # rows). stale files y \<and> fm_id y \<le> seq_file_metadata db \<longrightarrow>
               purged (fm_id y) (chunk_ids_of db (fm_id y)) db'"
      using db'(6) False by simp
    ultimately show ?thesis
      using db'(2,3,4,5,7) unfolding eq by blast
  next
    case True
    define db1 where "db1 = delete_file_metadata (fm_id x) db"
    have ok1: "store_ok db1" using Cons.prems by (simp add: db1_def delete_store_ok)
    from Cons.IH[OF ok1, of "n + 1"] obtain db' where
      db': "remove_deleted files rows (n + 1) db1 = (n + 1 + length (filter (stale files) rows), db')"
       "store_ok db'" "tbl_collections db' = tbl_collections db1"
       "\<forall>g cids. purged g cids db1 \<longrightarrow> purged g cids db'"
       "set (tbl_file_metadata db') =
             {r \<in> set (tbl_file_metadata db1). fm_id r \<notin> fm_id ` {x \<in> set rows. stale files x}}"
       "\<forall>x \<in> set rows. stale files x \<and> fm_id x \<le> seq_file_metadata db1 \<longrightarrow>
               purged (fm_id x) (chunk_ids_of db1 (fm_id x)) db'"
       "\<forall>g. g \<notin> fm_id ` {x \<in> set rows. stale files x} \<longrightarrow>
               chunk_ids_of db' g = chunk_ids_of db1 g"
      by blast
    have run: "remove_deleted files (x # rows) n db = (n + length (filter (stale files) (x # rows)), db')"
      using True db'(1) by (simp add: stale_def db1_def)
    have keep: "\<forall>g cids. purged g cids db \<longrightarrow> purged g cids db'"
      using db'(4) delete_purged_keep[of _ _ db "fm_id x"] by (simp add: db1_def)
    have head: "purged (fm_id x) (chunk_ids_of db (fm_id x)) db'"
      if "fm_id x \<le> seq_file_metadata db"
      using delete_purges[OF Cons.prems that] db'(4) by (simp add: db1_def chunk_ids_of_def)
    have rows: "set (tbl_file_metadata db') =
             {r \<in> set (tbl_file_metadata db). fm_id r \<notin> fm_id ` {y \<in> set (x # rows). stale files y}}"
      using True unfolding db'(5) by (auto simp: db1_def delete_fields)
    have tail: "purged (fm_id y) (chunk_ids_of db (fm_id y)) db'"
      if y: "y \<in> set rows" "stale files y" "fm_id y \<le> seq_file_metadata db" for y
    proof (cases "fm_id y = fm_id x")
      case True
      then show ?thesis using head y(3) by simp
    next
      case False
      have "purged (fm_id y) (chunk_ids_of db1 (fm_id y)) db'"
        using db'(6) y by (simp add: db1_def delete_fields)
      then show ?thesis
        using chunk_ids_of_delete[OF False, of db] by (simp add: db1_def)
    qed
    have all: "\<forall>y \<in> set (x # rows). stale files y \<and> fm_id y \<le> seq_file_metadata db \<longrightarrow>
               purged (fm_id y) (chunk_ids_of db (fm_id y)) db'"
      using head tail by auto
    have chunks: "\<forall>g. g \<notin> fm_id ` {y \<in> set (x # rows). stale files y} \<longrightarrow>
               chunk_ids_of db' g = chunk_ids_of db g"
    proof (intro allI impI)
      fix g
      assume g: "g \<notin> fm_id ` {y \<in> set (x # rows). stale files y}"
      then have "g \<noteq> fm_id x" using True by auto
      then have "chunk_ids_of db1 g = chunk_ids_of db g"
        by (simp add: db1_def chunk_ids_of_delete)
      moreover from g have "g \<notin> fm_id ` {y \<in> set rows. stale files y}" by auto
      ultimately show "chunk_ids_of db' g = chunk_ids_of db g" using db'(7) by simp
    qed
    have "tbl_collections db' = tbl_collections db"
      using db'(3) by (simp add: db1_def delete_fields)
    with run db'(2) keep rows all chunks show ?thesis by blast
  qed
qed

lemma remove_deleted_noop:
  "\<forall>r \<in> set rows. \<not> stale files r \<Longrightarrow> remove_deleted files rows n db = (n, db)"
  by (induction rows) (simp_all add: stale_def)

lemma index_files_props:
  assumes "store_ok db" "cid \<in> col_id ` set (tbl_collections db)"
  shows "\<exists>i' s' c' db'. index_files fs cid full files (i, s, c) db = Inr ((i', s', c'), db') \<and>
           i' + s' = i + s + length files \<and>
           store_ok db' \<and> tbl_collections db' = tbl_collections db \<and>
           (\<forall>g cids. purged g cids db \<longrightarrow> purged g cids db') \<and>
           (\<forall>r. collection_id r \<noteq> cid \<or> file_path r \<notin> set files \<longrightarrow>
                (r \<in> set (tbl_file_metadata db') \<longleftrightarrow> r \<in> set (tbl_file_metadata db))) \<and>
           (\<forall>r \<in> set (tbl_file_metadata db).
                collection_id r \<noteq> cid \<or> file_path r \<notin> set files \<longrightarrow>
                chunk_ids_of db' (fm_id r) = chunk_ids_of db (fm_id r)) \<and>
           (\<forall>f \<in> set files. file_synced fs cid f db')"
  using assms
proof (induction files arbitrary: i s c db)
  case Nil
  then show ?case by simp
next
  case (Cons f files)
  from indexFile_props[OF Cons.prems, of fs f full] obtain res db1 where
    db1: "indexFile fs cid f full db = Inr (res, db1)" "store_ok db1"
      "tbl_collections db1 = tbl_collections db"
      "\<forall>g cids. purged g cids db \<longrightarrow> purged g cids db1"
      "\<forall>r. file_key r \<noteq> (cid, f) \<longrightarrow>
                (r \<in> set (tbl_file_metadata db1) \<longleftrightarrow> r \<in> set (tbl_file_metadata db))"
      "file_synced fs cid f db1"
      "\<forall>r \<in> set (tbl_file_metadata db). file_key r \<noteq> (cid, f) \<longrightarrow>
                chunk_ids_of db1 (fm_id r) = chunk_ids_of db (fm_id r)"
    by blast
  have fk1: "cid \<in> col_id ` set (tbl_collections db1)" using Cons.prems(2) db1(3) by simp
  define i1 where "i1 = (case res of NotIndexed why \<Rightarrow> i | Indexed k \<Rightarrow> i + 1)"
  define s1 where "s1 = (case res of NotIndexed why \<Rightarrow> s + 1 | Indexed k \<Rightarrow> s)"
  define c1 where "c1 = (case res of NotIndexed why \<Rightarrow> c | Indexed k \<Rightarrow> c + k)"
  have step: "index_files fs cid full (f # files) (i, s, c) db =
              index_files fs cid full files (i1, s1, c1) db1"
    using db1(1) by (simp add: i1_def s1_def c1_def split: file_result.splits)
  have cnt: "i1 + s1 = i + s + 1"
    by (simp add: i1_def s1_def split: file_result.splits)
  from Cons.IH[OF db1(2) fk1, of i1 s1 c1] obtain i' s' c' db' where
    db': "index_files fs cid full files (i1, s1, c1) db1 = Inr ((i', s', c'), db')"
      "i' + s' = i1 + s1 + length files"
      "store_ok db'" "tbl_collections db' = tbl_collections db1"
      "\<forall>g cids. purged g cids db1 \<longrightarrow> purged g cids db'"
      "\<forall>r. collection_id r \<noteq> cid \<or> file_path r \<notin> set files \<longrightarrow>
                (r \<in> set (tbl_file_metadata db') \<longleftrightarrow> r \<in> set (tbl_file_metadata db1))"
      "\<forall>f \<in> set files. file_synced fs cid f db'"
      "\<forall>r \<in> set (tbl_file_metadata db1).
                collection_id r \<noteq> cid \<or> file_path r \<notin> set files \<longrightarrow>
                chunk_ids_of db' (fm_id r) = chunk_ids_of db1 (fm_id r)"
    by blast
  have chunks: "\<forall>r \<in> set (tbl_file_metadata db).
                collection_id r \<noteq> cid \<or> file_path r \<notin> set (f # files) \<longrightarrow>
                chunk_ids_of db' (fm_id r) = chunk_ids_of db (fm_id r)"
  proof (intro ballI impI)
    fix r
    assume r: "r \<in> set (tbl_file_metadata db)"
      "collection_id r \<noteq> cid \<or> file_path r \<notin> set (f # files)"
    then have k: "file_key r \<noteq> (cid, f)" by (auto simp: file_key_def)
    then have "r \<in> set (tbl_file_metadata db1)" using db1(5) r(1) by blast
    moreover from r have "collection_id r \<noteq> cid \<or> file_path r \<notin> set files" by auto
    ultimately have "chunk_ids_of db' (fm_id r) = chunk_ids_of db1 (fm_id r)"
      using db'(8) by blast
    then show "chunk_ids_of db' (fm_id r) = chunk_ids_of db (fm_id r)"
      using db1(7) r(1) k by simp
  qed
  have frame: "\<forall>r. collection_id r \<noteq> cid \<or> file_path r \<notin> set (f # files) \<longrightarrow>
                (r \<in> set (tbl_file_metadata db') \<longleftrightarrow> r \<in> set (tbl_file_metadata db))"
  proof (intro allI impI)
    fix r :: file_metadata_row
    assume r: "collection_id r \<noteq> cid \<or> file_path r \<notin> set (f # files)"
    then have "file_key r \<noteq> (cid, f)" by (auto simp: file_key_def)
    moreover from r have "collection_id r \<noteq> cid \<or> file_path r \<notin> set files" by auto
    ultimately show "r \<in> set (tbl_file_metadata db') \<longleftrightarrow> r \<in> set (tbl_file_metadata db)"
      using db1(5) db'(6) by blast
  qed
  have head: "file_synced fs cid f db'"
  proof (cases "f \<in> set files")
    case True
    then show ?thesis using db'(7) by blast
  next
    case False
    have "file_synced fs cid f db' = file_synced fs cid f db1"
    proof (rule file_synced_cong)
      fix r :: file_metadata_row
      assume "file_key r = (cid, f)"
      then have "file_path r \<notin> set files" using False by (auto simp: file_key_def)
      then show "r \<in> set (tbl_file_metadata db') \<longleftrightarrow> r \<in> set (tbl_file_metadata db1)"
        using db'(6) by blast
    qed
    then show ?thesis using db1(6) by simp
  qed
  have synced: "\<forall>g \<in> set (f # files). file_synced fs cid g db'"
    using head db'(7) by simp
  have "i' + s' = i + s + length (f # files)" using db'(2) cnt by simp
  moreover have "tbl_collections db' = tbl_collections db" using db'(4) db1(3) by simp
  moreover have "\<forall>g cids. purged g cids db \<longrightarrow> purged g cids db'" using db'(5) db1(4) by blast
  ultimately show ?case
    using step db'(1,3) frame synced chunks
    by (intro exI[of _ i'] exI[of _ s'] exI[of _ c'] exI[of _ db']) simp
qed

lemma index_files_noop:
  assumes "store_ok db" "\<forall>f \<in> set files. file_synced fs cid f db"
  shows "index_files fs cid False files (i, s, c) db = Inr ((i, s + length files, c), db)"
  using assms(2)
proof (induction files arbitrary: s)
  case Nil
  show ?case by simp
next
  case (Cons f files)
  from indexFile_noop[OF assms(1), of fs cid f] Cons.prems obtain why where
    "indexFile fs cid f False db = Inr (NotIndexed why, db)" by auto
  then show ?case using Cons.IH[of "s + 1"] Cons.prems by simp
qed

subsubsection \<open>The transaction of one collection\<close>

lemma collection_synced_cong:
  assumes "\<And>r. collection_id r = col_id coll \<Longrightarrow>
             r \<in> set (tbl_file_metadata db') \<longleftrightarrow> r \<in> set (tbl_file_metadata db)"
  shows "collection_synced fs coll db' = collection_synced fs coll db"
proof -
  have "file_synced fs (col_id coll) f db' = file_synced fs (col_id coll) f db" for f
    by (rule file_synced_cong) (simp add: assms file_key_def)
  moreover have "(\<forall>r \<in> set (tbl_file_metadata db').
        collection_id r = col_id coll \<longrightarrow> file_path r \<in> set (discoverFiles fs coll)) \<longleftrightarrow>
     (\<forall>r \<in> set (tbl_file_metadata db).
        collection_id r = col_id coll \<longrightarrow> file_path r \<in> set (discoverFiles fs coll))"
    using assms by blast
  ultimately show ?thesis by (simp add: collection_synced_def)
qed

lemma index_transaction_props:
  assumes ok: "store_ok db" and coll: "coll \<in> set (tbl_collections db)"
  shows "\<exists>res db'. index_transaction fs coll full db = Inr (res, db') \<and>
           store_ok db' \<and> tbl_collections db' = tbl_collections db \<and>
           c_name res = col_name coll \<and> c_files res = length (discoverFiles fs coll) \<and>
           c_indexed res + c_skipped res = length (discoverFiles fs coll) \<and>
           c_removed res = length (filter (removed_file fs coll) (tbl_file_metadata db)) \<and>
           (\<forall>g cids. purged g cids db \<longrightarrow> purged g cids db') \<and>
           (\<forall>r \<in> set (tbl_file_metadata db). removed_file fs coll r \<longrightarrow>
               r \<notin> set (tbl_file_metadata db') \<and> purged (fm_id r) (chunk_ids_of db (fm_id r)) db') \<and>
           (\<forall>r. collection_id r \<noteq> col_id coll \<longrightarrow>
               (r \<in> set (tbl_file_metadata db') \<longleftrightarrow> r \<in> set (tbl_file_metadata db))) \<and>
           (\<forall>r \<in> set (tbl_file_metadata db). collection_id r \<noteq> col_id coll \<longrightarrow>
               chunk_ids_of db' (fm_id r) = chunk_ids_of db (fm_id r)) \<and>
           collection_synced fs coll db'"
proof -
  define files where "files = discoverFiles fs coll"
  define rows where "rows = filter (\<lambda>r. collection_id r = col_id coll) (tbl_file_metadata db)"
  have gone_rows: "filter (stale files) rows = filter (removed_file fs coll) (tbl_file_metadata db)"
  proof -
    have "removed_file fs coll = (\<lambda>r. collection_id r = col_id coll \<and> stale files r)"
      by (rule ext) (simp add: removed_file_def files_def)
    then show ?thesis by (simp add: rows_def conj_commute)
  qed
  from remove_deleted_props[OF ok, of files rows 0] obtain db1 where
    db1: "remove_deleted files rows 0 db = (0 + length (filter (stale files) rows), db1)"
      "store_ok db1" "tbl_collections db1 = tbl_collections db"
      "\<forall>g cids. purged g cids db \<longrightarrow> purged g cids db1"
      "set (tbl_file_metadata db1) =
             {r \<in> set (tbl_file_metadata db). fm_id r \<notin> fm_id ` {x \<in> set rows. stale files x}}"
      "\<forall>x \<in> set rows. stale files x \<and> fm_id x \<le> seq_file_metadata db \<longrightarrow>
               purged (fm_id x) (chunk_ids_of db (fm_id x)) db1"
      "\<forall>g. g \<notin> fm_id ` {x \<in> set rows. stale files x} \<longrightarrow>
               chunk_ids_of db1 g = chunk_ids_of db g"
    by blast
  have fk1: "col_id coll \<in> col_id ` set (tbl_collections db1)"
    using coll db1(3) by simp
  from index_files_props[OF db1(2) fk1, of fs full files 0 0 0] obtain i' s' c' db2 where
    db2: "index_files fs (col_id coll) full files (0, 0, 0) db1 = Inr ((i', s', c'), db2)"
      "i' + s' = 0 + 0 + length files"
      "store_ok db2" "tbl_collections db2 = tbl_collections db1"
      "\<forall>g cids. purged g cids db1 \<longrightarrow> purged g cids db2"
      "\<forall>r. collection_id r \<noteq> col_id coll \<or> file_path r \<notin> set files \<longrightarrow>
                (r \<in> set (tbl_file_metadata db2) \<longleftrightarrow> r \<in> set (tbl_file_metadata db1))"
      "\<forall>f \<in> set files. file_synced fs (col_id coll) f db2"
      "\<forall>r \<in> set (tbl_file_metadata db1).
                collection_id r \<noteq> col_id coll \<or> file_path r \<notin> set files \<longrightarrow>
                chunk_ids_of db2 (fm_id r) = chunk_ids_of db1 (fm_id r)"
    by blast
  define res where "res = \<lparr>c_name = col_name coll, c_files = length files,
                   c_indexed = i', c_skipped = s',
                   c_removed = length (filter (removed_file fs coll) (tbl_file_metadata db)), c_chunks = c'\<rparr>"
  have run: "index_transaction fs coll full db = Inr (res, db2)"
    using db1(1) db2(1)
    by (simp add: index_transaction_def files_def[symmetric] rows_def[symmetric] res_def gone_rows)
  have bound: "\<forall>r \<in> set (tbl_file_metadata db). fm_id r \<le> seq_file_metadata db"
    using ok by (simp add: store_ok_def)
  have removed: "r \<notin> set (tbl_file_metadata db2) \<and> purged (fm_id r) (chunk_ids_of db (fm_id r)) db2"
    if r: "r \<in> set (tbl_file_metadata db)" "removed_file fs coll r" for r
  proof -
    have in_rows: "r \<in> set rows" "stale files r"
      using r by (simp_all add: rows_def removed_file_def files_def)
    then have "r \<notin> set (tbl_file_metadata db1)"
      unfolding db1(5) by blast
    moreover have "file_path r \<notin> set files"
      using in_rows(2) by (simp add: stale_def)
    ultimately have "r \<notin> set (tbl_file_metadata db2)"
      using db2(6) by blast
    moreover have "purged (fm_id r) (chunk_ids_of db (fm_id r)) db1"
      using db1(6) in_rows bound r(1) by blast
    ultimately show ?thesis using db2(5) by blast
  qed
  have other: "fm_id r \<notin> fm_id ` {x \<in> set rows. stale files x}"
    if r: "collection_id r \<noteq> col_id coll" "r \<in> set (tbl_file_metadata db)" for r
  proof
    assume "fm_id r \<in> fm_id ` {x \<in> set rows. stale files x}"
    then obtain x where x: "x \<in> set rows" "fm_id r = fm_id x" by blast
    then have "x \<in> set (tbl_file_metadata db)" "collection_id x = col_id coll"
      by (simp_all add: rows_def)
    with id_unique[OF ok this(1) r(2)] x(2) r(1) show False by simp
  qed
  have frame: "r \<in> set (tbl_file_metadata db2) \<longleftrightarrow> r \<in> set (tbl_file_metadata db)"
    if r: "collection_id r \<noteq> col_id coll" for r
  proof -
    have "r \<in> set (tbl_file_metadata db1) \<longleftrightarrow> r \<in> set (tbl_file_metadata db)"
      unfolding db1(5) using other[OF r] by blast
    then show ?thesis using db2(6) r by blast
  qed
  have chunks: "\<forall>r \<in> set (tbl_file_metadata db). collection_id r \<noteq> col_id coll \<longrightarrow>
               chunk_ids_of db2 (fm_id r) = chunk_ids_of db (fm_id r)"
  proof (intro ballI impI)
    fix r
    assume r: "r \<in> set (tbl_file_metadata db)" "collection_id r \<noteq> col_id coll"
    have "r \<in> set (tbl_file_metadata db1)"
      unfolding db1(5) using other[OF r(2,1)] r(1) by blast
    then have "chunk_ids_of db2 (fm_id r) = chunk_ids_of db1 (fm_id r)"
      using db2(8) r(2) by blast
    then show "chunk_ids_of db2 (fm_id r) = chunk_ids_of db (fm_id r)"
      using db1(7) other[OF r(2,1)] by simp
  qed
  have paths: "file_path r \<in> set files"
    if r: "r \<in> set (tbl_file_metadata db2)" "collection_id r = col_id coll" for r
  proof (rule ccontr)
    assume no: "file_path r \<notin> set files"
    then have r1: "r \<in> set (tbl_file_metadata db1)" using db2(6) r(1) by blast
    then have "r \<in> set (tbl_file_metadata db)" unfolding db1(5) by blast
    then have "r \<in> set rows" "stale files r"
      using r(2) no by (simp_all add: rows_def stale_def)
    then show False using r1 unfolding db1(5) by blast
  qed
  have synced: "collection_synced fs coll db2"
    unfolding collection_synced_def files_def[symmetric] using paths db2(7) by blast
  have "store_ok db2" by (rule db2(3))
  moreover have "tbl_collections db2 = tbl_collections db" using db2(4) db1(3) by simp
  moreover have "c_name res = col_name coll" "c_files res = length (discoverFiles fs coll)"
    "c_indexed res + c_skipped res = length (discoverFiles fs coll)"
    "c_removed res = length (filter (removed_file fs coll) (tbl_file_metadata db))"
    using db2(2) by (simp_all add: res_def files_def)
  moreover have "\<forall>g cids. purged g cids db \<longrightarrow> purged g cids db2"
    using db1(4) db2(5) by blast
  ultimately show ?thesis
    using run removed frame chunks synced by blast
qed

lemma index_transaction_noop:
  assumes ok: "store_ok db" and sync: "collection_synced fs coll db"
  shows "index_transaction fs coll False db =
           Inr (\<lparr>c_name = col_name coll, c_files = length (discoverFiles fs coll),
                 c_indexed = 0, c_skipped = length (discoverFiles fs coll),
                 c_removed = 0, c_chunks = 0\<rparr>, db)"
proof -
  have "\<forall>r \<in> set (filter (\<lambda>r. collection_id r = col_id coll) (tbl_file_metadata db)).
          \<not> stale (discoverFiles fs coll) r"
    using sync by (simp add: collection_synced_def stale_def)
  from remove_deleted_noop[OF this, of 0 db]
  have a: "remove_deleted (discoverFiles fs coll)
             (filter (\<lambda>r. collection_id r = col_id coll) (tbl_file_metadata db)) 0 db = (0, db)" .
  have "\<forall>f \<in> set (discoverFiles fs coll). file_synced fs (col_id coll) f db"
    using sync by (simp add: collection_synced_def)
  from index_files_noop[OF ok this, of 0 0 0]
  have b: "index_files fs (col_id coll) False (discoverFiles fs coll) (0, 0, 0) db =
             Inr ((0, length (discoverFiles fs coll), 0), db)" by simp
  show ?thesis
    by (simp add: index_transaction_def a b Let_def)
qed

subsubsection \<open>All collections\<close>

lemma mset_insert_by_name: "mset (insert_by_name c ds) = add_mset c (mset ds)"
  by (induction ds) simp_all

lemma mset_order_by_name: "mset (order_by_name rows) = mset rows"
  unfolding order_by_name_def by (induction rows) (simp_all add: mset_insert_by_name)

lemma order_by_name_props:
  "set (order_by_name rows) = set rows"
  "distinct (map col_id (order_by_name rows)) = distinct (map col_id rows)"
proof -
  show "set (order_by_name rows) = set rows"
    using mset_order_by_name[of rows] by (metis set_mset_mset)
  have "mset (map col_id (order_by_name rows)) = mset (map col_id rows)"
    using mset_order_by_name[of rows] by (metis mset_map)
  then show "distinct (map col_id (order_by_name rows)) = distinct (map col_id rows)"
    by (metis mset_eq_imp_distinct_iff)
qed

lemma getCollections_props:
  assumes "store_ok db"
  shows "set (getCollections db name) \<subseteq> set (tbl_collections db)"
    and "distinct (map col_id (getCollections db name))"
proof -
  have d: "distinct (map col_id (tbl_collections db))" using assms by (simp add: store_ok_def)
  have f: "getCollection db n = Some c \<Longrightarrow> c \<in> set (tbl_collections db)" for n c
    by (auto simp: getCollection_def find_Some_iff)
  show "set (getCollections db name) \<subseteq> set (tbl_collections db)"
    using f by (auto simp: getCollections_def order_by_name_props split: option.splits if_splits)
  show "distinct (map col_id (getCollections db name))"
    using d by (auto simp: getCollections_def order_by_name_props split: option.splits)
qed

lemma getCollections_cong:
  "tbl_collections db' = tbl_collections db \<Longrightarrow> getCollections db' name = getCollections db name"
  by (simp add: getCollections_def getCollection_def split: option.splits)

lemma index_loop_props:
  assumes "store_ok db" "set cs \<subseteq> set (tbl_collections db)" "distinct (map col_id cs)"
  shows "\<exists>res db'. index_loop fs full cs r0 db = (Inr res, db') \<and> store_ok db' \<and>
           tbl_collections db' = tbl_collections db \<and>
           (\<forall>c \<in> set cs. collection_synced fs c db') \<and>
           (\<forall>r. collection_id r \<notin> col_id ` set cs \<longrightarrow>
               (r \<in> set (tbl_file_metadata db') \<longleftrightarrow> r \<in> set (tbl_file_metadata db)))"
  using assms
proof (induction cs arbitrary: r0 db)
  case Nil
  then show ?case by simp
next
  case (Cons c cs)
  have c: "c \<in> set (tbl_collections db)" using Cons.prems(2) by simp
  from index_transaction_props[OF Cons.prems(1) c, of fs full] obtain entry db1 where
    db1: "index_transaction fs c full db = Inr (entry, db1)" "store_ok db1"
      "tbl_collections db1 = tbl_collections db"
      "\<forall>r. collection_id r \<noteq> col_id c \<longrightarrow>
               (r \<in> set (tbl_file_metadata db1) \<longleftrightarrow> r \<in> set (tbl_file_metadata db))"
      "collection_synced fs c db1"
    by blast
  define r1 where "r1 = \<lparr>collection_results = collection_results r0 @ [entry],
             totalFiles = totalFiles r0 + c_files entry,
             totalChunks = totalChunks r0 + c_chunks entry,
             indexed = indexed r0 + c_indexed entry,
             skipped = skipped r0 + c_skipped entry,
             removed = removed r0 + c_removed entry\<rparr>"
  have step: "index_loop fs full (c # cs) r0 db = index_loop fs full cs r1 db1"
    using db1(1) by (simp add: r1_def)
  have sub: "set cs \<subseteq> set (tbl_collections db1)" using Cons.prems(2) db1(3) by simp
  have dist: "distinct (map col_id cs)" using Cons.prems(3) by simp
  from Cons.IH[OF db1(2) sub dist, of r1] obtain res db' where
    db': "index_loop fs full cs r1 db1 = (Inr res, db')" "store_ok db'"
      "tbl_collections db' = tbl_collections db1"
      "\<forall>c \<in> set cs. collection_synced fs c db'"
      "\<forall>r. collection_id r \<notin> col_id ` set cs \<longrightarrow>
               (r \<in> set (tbl_file_metadata db') \<longleftrightarrow> r \<in> set (tbl_file_metadata db1))"
    by blast
  have notin: "col_id c \<notin> col_id ` set cs" using Cons.prems(3) by simp
  have "collection_synced fs c db' = collection_synced fs c db1"
  proof (rule collection_synced_cong)
    fix r :: file_metadata_row
    assume "collection_id r = col_id c"
    then show "r \<in> set (tbl_file_metadata db') \<longleftrightarrow> r \<in> set (tbl_file_metadata db1)"
      using db'(5) notin by simp
  qed
  then have head: "collection_synced fs c db'" using db1(5) by simp
  have frame: "\<forall>r. collection_id r \<notin> col_id ` set (c # cs) \<longrightarrow>
               (r \<in> set (tbl_file_metadata db') \<longleftrightarrow> r \<in> set (tbl_file_metadata db))"
    using db'(5) db1(4) by simp
  have "tbl_collections db' = tbl_collections db" using db'(3) db1(3) by simp
  with step db'(1,2,4) head frame show ?case by simp
qed

lemma store_ok_distinct_rows: "store_ok db \<Longrightarrow> distinct (tbl_file_metadata db)"
  by (simp add: store_ok_def distinct_map)

lemma length_filter_cong:
  assumes "distinct xs" "distinct ys" "\<And>x. P x \<Longrightarrow> x \<in> set xs \<longleftrightarrow> x \<in> set ys"
  shows "length (filter P xs) = length (filter P ys)"
proof -
  have "{x. P x} \<inter> set xs = {x. P x} \<inter> set ys" using assms(3) by blast
  then show ?thesis using assms(1,2) by (simp add: distinct_length_filter)
qed

lemma index_loop_removes:
  assumes "store_ok db" "set cs \<subseteq> set (tbl_collections db)" "distinct (map col_id cs)"
  shows "\<exists>res db'. index_loop fs full cs r0 db = (Inr res, db') \<and>
           removed res = removed r0 +
             sum_list (map (\<lambda>c. length (filter (removed_file fs c) (tbl_file_metadata db))) cs) \<and>
           map c_removed (collection_results res) = map c_removed (collection_results r0) @
             map (\<lambda>c. length (filter (removed_file fs c) (tbl_file_metadata db))) cs \<and>
           (\<forall>g cids. purged g cids db \<longrightarrow> purged g cids db') \<and>
           (\<forall>r. collection_id r \<notin> col_id ` set cs \<longrightarrow>
               (r \<in> set (tbl_file_metadata db') \<longleftrightarrow> r \<in> set (tbl_file_metadata db))) \<and>
           (\<forall>c \<in> set cs. \<forall>r \<in> set (tbl_file_metadata db). removed_file fs c r \<longrightarrow>
               r \<notin> set (tbl_file_metadata db') \<and>
               purged (fm_id r) (chunk_ids_of db (fm_id r)) db')"
  using assms
proof (induction cs arbitrary: r0 db)
  case Nil
  then show ?case by simp
next
  case (Cons c cs)
  let ?count = "\<lambda>db c. length (filter (removed_file fs c) (tbl_file_metadata db))"
  have c: "c \<in> set (tbl_collections db)" using Cons.prems(2) by simp
  from index_transaction_props[OF Cons.prems(1) c, of fs full] obtain entry db1 where
    db1: "index_transaction fs c full db = Inr (entry, db1)" "store_ok db1"
      "tbl_collections db1 = tbl_collections db"
      "c_removed entry = ?count db c"
      "\<forall>g cids. purged g cids db \<longrightarrow> purged g cids db1"
      "\<forall>r \<in> set (tbl_file_metadata db). removed_file fs c r \<longrightarrow>
               r \<notin> set (tbl_file_metadata db1) \<and> purged (fm_id r) (chunk_ids_of db (fm_id r)) db1"
      "\<forall>r. collection_id r \<noteq> col_id c \<longrightarrow>
               (r \<in> set (tbl_file_metadata db1) \<longleftrightarrow> r \<in> set (tbl_file_metadata db))"
      "\<forall>r \<in> set (tbl_file_metadata db). collection_id r \<noteq> col_id c \<longrightarrow>
               chunk_ids_of db1 (fm_id r) = chunk_ids_of db (fm_id r)"
    by blast
  define r1 where "r1 = \<lparr>collection_results = collection_results r0 @ [entry],
             totalFiles = totalFiles r0 + c_files entry,
             totalChunks = totalChunks r0 + c_chunks entry,
             indexed = indexed r0 + c_indexed entry,
             skipped = skipped r0 + c_skipped entry,
             removed = removed r0 + c_removed entry\<rparr>"
  have step: "index_loop fs full (c # cs) r0 db = index_loop fs full cs r1 db1"
    using db1(1) by (simp add: r1_def)
  have sub: "set cs \<subseteq> set (tbl_collections db1)" using Cons.prems(2) db1(3) by simp
  have dist: "distinct (map col_id cs)" using Cons.prems(3) by simp
  from Cons.IH[OF db1(2) sub dist, of r1] obtain res db' where
    db': "index_loop fs full cs r1 db1 = (Inr res, db')"
      "removed res = removed r1 + sum_list (map (?count db1) cs)"
      "map c_removed (collection_results res) =
         map c_removed (collection_results r1) @ map (?count db1) cs"
      "\<forall>g cids. purged g cids db1 \<longrightarrow> purged g cids db'"
      "\<forall>r. collection_id r \<notin> col_id ` set cs \<longrightarrow>
               (r \<in> set (tbl_file_metadata db') \<longleftrightarrow> r \<in> set (tbl_file_metadata db1))"
      "\<forall>c \<in> set cs. \<forall>r \<in> set (tbl_file_metadata db1). removed_file fs c r \<longrightarrow>
               r \<notin> set (tbl_file_metadata db') \<and>
               purged (fm_id r) (chunk_ids_of db1 (fm_id r)) db'"
    by blast
  have notin: "col_id c \<notin> col_id ` set cs" using Cons.prems(3) by simp
  have other: "collection_id r \<noteq> col_id c" if "c' \<in> set cs" "removed_file fs c' r" for c' r
  proof -
    have "col_id c' \<in> col_id ` set cs" using that(1) by simp
    then have "col_id c' \<noteq> col_id c" using notin by metis
    then show ?thesis using that(2) by (simp add: removed_file_def)
  qed
  have count: "?count db1 c' = ?count db c'" if "c' \<in> set cs" for c'
  proof (rule length_filter_cong)
    show "distinct (tbl_file_metadata db1)" by (rule store_ok_distinct_rows[OF db1(2)])
    show "distinct (tbl_file_metadata db)" by (rule store_ok_distinct_rows[OF Cons.prems(1)])
    show "x \<in> set (tbl_file_metadata db1) \<longleftrightarrow> x \<in> set (tbl_file_metadata db)"
      if "removed_file fs c' x" for x
      using db1(7) other[OF \<open>c' \<in> set cs\<close> that] by blast
  qed
  then have counts: "map (?count db1) cs = map (?count db) cs" by simp
  have cnt: "removed res = removed r0 + sum_list (map (?count db) (c # cs))"
    using db'(2) db1(4) by (simp add: counts r1_def)
  have per: "map c_removed (collection_results res) =
         map c_removed (collection_results r0) @ map (?count db) (c # cs)"
    using db'(3) db1(4) by (simp add: counts r1_def)
  have keep: "\<forall>g cids. purged g cids db \<longrightarrow> purged g cids db'"
    using db1(5) db'(4) by blast
  have frame: "\<forall>r. collection_id r \<notin> col_id ` set (c # cs) \<longrightarrow>
               (r \<in> set (tbl_file_metadata db') \<longleftrightarrow> r \<in> set (tbl_file_metadata db))"
    using db'(5) db1(7) by simp
  have gone: "r \<notin> set (tbl_file_metadata db') \<and> purged (fm_id r) (chunk_ids_of db (fm_id r)) db'"
    if c': "c' \<in> set (c # cs)" and r: "r \<in> set (tbl_file_metadata db)" "removed_file fs c' r"
    for c' r
  proof (cases "c' = c")
    case True
    then have a: "r \<notin> set (tbl_file_metadata db1)"
      "purged (fm_id r) (chunk_ids_of db (fm_id r)) db1"
      using db1(6) r by blast+
    have "collection_id r = col_id c" using r(2) True by (simp add: removed_file_def)
    then have "collection_id r \<notin> col_id ` set cs" using notin by simp
    then have "r \<notin> set (tbl_file_metadata db')" using db'(5) a(1) by blast
    then show ?thesis using a(2) db'(4) by blast
  next
    case False
    then have in_cs: "c' \<in> set cs" using c' by simp
    note o = other[OF in_cs r(2)]
    have "r \<in> set (tbl_file_metadata db1)" using db1(7) o r(1) by blast
    then have "r \<notin> set (tbl_file_metadata db')"
      "purged (fm_id r) (chunk_ids_of db1 (fm_id r)) db'"
      using db'(6) in_cs r(2) by blast+
    moreover have "chunk_ids_of db1 (fm_id r) = chunk_ids_of db (fm_id r)"
      using db1(8) r(1) o by blast
    ultimately show ?thesis by simp
  qed
  have gone_all: "\<forall>c' \<in> set (c # cs). \<forall>r \<in> set (tbl_file_metadata db). removed_file fs c' r \<longrightarrow>
               r \<notin> set (tbl_file_metadata db') \<and>
               purged (fm_id r) (chunk_ids_of db (fm_id r)) db'"
    using gone by blast
  have run: "index_loop fs full (c # cs) r0 db = (Inr res, db')"
    unfolding step by (rule db'(1))
  from run cnt per keep frame gone_all show ?case by blast
qed

lemma index_loop_noop:
  assumes "store_ok db" "\<forall>c \<in> set cs. collection_synced fs c db"
  shows "\<exists>res. index_loop fs False cs r0 db = (Inr res, db) \<and>
           indexed res = indexed r0 \<and> removed res = removed r0 \<and>
           totalChunks res = totalChunks r0 \<and>
           skipped res = skipped r0 + sum_list (map (\<lambda>c. length (discoverFiles fs c)) cs) \<and>
           totalFiles res = totalFiles r0 + sum_list (map (\<lambda>c. length (discoverFiles fs c)) cs) \<and>
           collection_results res = collection_results r0 @
             map (\<lambda>c. \<lparr>c_name = col_name c, c_files = length (discoverFiles fs c),
                        c_indexed = 0, c_skipped = length (discoverFiles fs c),
                        c_removed = 0, c_chunks = 0\<rparr>) cs"
  using assms(2)
proof (induction cs arbitrary: r0)
  case Nil
  show ?case by simp
next
  case (Cons c cs)
  have c: "collection_synced fs c db" using Cons.prems by simp
  define r1 where "r1 = \<lparr>collection_results = collection_results r0 @
              [\<lparr>c_name = col_name c, c_files = length (discoverFiles fs c),
                 c_indexed = 0, c_skipped = length (discoverFiles fs c),
                 c_removed = 0, c_chunks = 0\<rparr>],
             totalFiles = totalFiles r0 + length (discoverFiles fs c),
             totalChunks = totalChunks r0,
             indexed = indexed r0,
             skipped = skipped r0 + length (discoverFiles fs c),
             removed = removed r0\<rparr>"
  have step: "index_loop fs False (c # cs) r0 db = index_loop fs False cs r1 db"
    by (simp add: index_transaction_noop[OF assms(1) c] r1_def)
  from Cons.IH[of r1] Cons.prems obtain res where
    "index_loop fs False cs r1 db = (Inr res, db)"
    "indexed res = indexed r1" "removed res = removed r1" "totalChunks res = totalChunks r1"
    "skipped res = skipped r1 + sum_list (map (\<lambda>c. length (discoverFiles fs c)) cs)"
    "totalFiles res = totalFiles r1 + sum_list (map (\<lambda>c. length (discoverFiles fs c)) cs)"
    "collection_results res = collection_results r1 @
             map (\<lambda>c. \<lparr>c_name = col_name c, c_files = length (discoverFiles fs c),
                        c_indexed = 0, c_skipped = length (discoverFiles fs c),
                        c_removed = 0, c_chunks = 0\<rparr>) cs"
    by auto
  then show ?case using step by (simp add: r1_def)
qed

lemma indexFile_unchanged:
  assumes "existsSync fs path" "readFileSafe fs path = Inr (Some content)"
    and "find_file_metadata db cid path = Some r" "file_hash r = hashContent fs content"
  shows "indexFile fs cid path False db = Inr (NotIndexed unchanged, db)"
  using assms by (simp add: indexFile_def)

lemma purgedD:
  assumes "purged fid (chunk_ids_of db fid) db'"
  shows "fid \<notin> fm_id ` set (tbl_file_metadata db')"
    and "\<forall>c \<in> set (tbl_chunks db'). file_metadata_id c \<noteq> fid"
    and "\<forall>c \<in> set (tbl_chunks db). file_metadata_id c = fid \<longrightarrow>
           chunk_id c \<notin> chunk_id ` set (tbl_chunks db') \<and>
           chunk_id c \<notin> emb_chunk_id ` set (tbl_embeddings db')"
proof -
  show "fid \<notin> fm_id ` set (tbl_file_metadata db')" using assms by (simp add: purged_def)
  show "\<forall>c \<in> set (tbl_chunks db'). file_metadata_id c \<noteq> fid" using assms by (simp add: purged_def)
  have "\<forall>k \<in> chunk_ids_of db fid. k \<notin> chunk_id ` set (tbl_chunks db') \<and>
          k \<notin> emb_chunk_id ` set (tbl_embeddings db')"
    using assms by (simp add: purged_def)
  moreover have "chunk_id c \<in> chunk_ids_of db fid"
    if "c \<in> set (tbl_chunks db)" "file_metadata_id c = fid" for c
    using that by (auto simp: chunk_ids_of_def)
  ultimately show "\<forall>c \<in> set (tbl_chunks db). file_metadata_id c = fid \<longrightarrow>
           chunk_id c \<notin> chunk_id ` set (tbl_chunks db') \<and>
           chunk_id c \<notin> emb_chunk_id ` set (tbl_embeddings db')"
    by blast
qed

lemma example_store_ok: "store_ok vector_db"
  by (simp add: store_ok_def vector_db_def example_db_def file_key_def)

lemma example_collections:
  "getCollections vector_db None =
     [\<lparr>col_id = 1, col_name = js ''notes'', base_path = js ''/n'', glob_mask = js ''*.md''\<rparr>]"
  by (simp add: getCollections_def order_by_name_def vector_db_def example_db_def)

lemma example_removed:
  "filter (removed_file example_fs
       \<lparr>col_id = 1, col_name = js ''notes'', base_path = js ''/n'', glob_mask = js ''*.md''\<rparr>)
     (tbl_file_metadata vector_db) =
   [\<lparr>fm_id = 1, collection_id = 1, file_path = js ''/n/a.md'', file_hash = js ''h1''\<rparr>]"
  by (simp add: removed_file_def stale_def discoverFiles_def example_fs_def vector_db_def
      example_db_def js_def)

text \<open>
  Claim C1. A run of \<open>indexCollections\<close> on a store that satisfies the constraints of the
  schema returns results. For every selected collection, every file row of the
  collection whose path is no longer among the matched files is deleted and counted:
  the \<open>removed\<close> of the collection is the number of these rows, and the \<open>removed\<close> of the
  results is their number over all selected collections (1 for one deleted file). With
  the row go its chunks and the embeddings of those chunks: after the run no file row
  has its id, no chunk refers to it, and no chunk and no embedding has the id of one
  of its chunks.
\<close>

theorem reindex_removes_deleted_files:
  assumes "store_ok db" and "getCollections db name \<noteq> []"
  shows "\<exists>results db'.
           indexCollections fs name full db = (Inr (IndexResults results), db') \<and>
           removed results =
             sum_list (map (\<lambda>c. length (filter (removed_file fs c) (tbl_file_metadata db)))
                         (getCollections db name)) \<and>
           map c_removed (collection_results results) =
             map (\<lambda>c. length (filter (removed_file fs c) (tbl_file_metadata db)))
               (getCollections db name) \<and>
           (\<forall>c \<in> set (getCollections db name).
              \<forall>r \<in> set (tbl_file_metadata db). removed_file fs c r \<longrightarrow>
                r \<notin> set (tbl_file_metadata db') \<and>
                fm_id r \<notin> fm_id ` set (tbl_file_metadata db') \<and>
                (\<forall>ch \<in> set (tbl_chunks db'). file_metadata_id ch \<noteq> fm_id r) \<and>
                (\<forall>ch \<in> set (tbl_chunks db). file_metadata_id ch = fm_id r \<longrightarrow>
                   chunk_id ch \<notin> chunk_id ` set (tbl_chunks db') \<and>
                   chunk_id ch \<notin> emb_chunk_id ` set (tbl_embeddings db')))"
proof -
  define r0 where "r0 = \<lparr>collection_results = [], totalFiles = 0, totalChunks = 0,
                    indexed = 0, skipped = 0, removed = 0\<rparr>"
  define cs where "cs = getCollections db name"
  note c = getCollections_props[OF assms(1), of name, folded cs_def]
  from index_loop_removes[OF assms(1) c, of fs full r0] obtain res db' where
    run: "index_loop fs full cs r0 db = (Inr res, db')"
    and cnt: "removed res = removed r0 +
             sum_list (map (\<lambda>c. length (filter (removed_file fs c) (tbl_file_metadata db))) cs)"
    and per: "map c_removed (collection_results res) = map c_removed (collection_results r0) @
             map (\<lambda>c. length (filter (removed_file fs c) (tbl_file_metadata db))) cs"
    and gone: "\<forall>c \<in> set cs. \<forall>r \<in> set (tbl_file_metadata db). removed_file fs c r \<longrightarrow>
               r \<notin> set (tbl_file_metadata db') \<and>
               purged (fm_id r) (chunk_ids_of db (fm_id r)) db'"
    by blast
  have a: "\<forall>c \<in> set cs. \<forall>r \<in> set (tbl_file_metadata db). removed_file fs c r \<longrightarrow>
                r \<notin> set (tbl_file_metadata db') \<and>
                fm_id r \<notin> fm_id ` set (tbl_file_metadata db') \<and>
                (\<forall>ch \<in> set (tbl_chunks db'). file_metadata_id ch \<noteq> fm_id r) \<and>
                (\<forall>ch \<in> set (tbl_chunks db). file_metadata_id ch = fm_id r \<longrightarrow>
                   chunk_id ch \<notin> chunk_id ` set (tbl_chunks db') \<and>
                   chunk_id ch \<notin> emb_chunk_id ` set (tbl_embeddings db'))"
  proof (intro ballI impI)
    fix c r
    assume "c \<in> set cs" "r \<in> set (tbl_file_metadata db)" "removed_file fs c r"
    with gone have "r \<notin> set (tbl_file_metadata db')"
      "purged (fm_id r) (chunk_ids_of db (fm_id r)) db'" by blast+
    with purgedD[OF this(2)] show "r \<notin> set (tbl_file_metadata db') \<and>
                fm_id r \<notin> fm_id ` set (tbl_file_metadata db') \<and>
                (\<forall>ch \<in> set (tbl_chunks db'). file_metadata_id ch \<noteq> fm_id r) \<and>
                (\<forall>ch \<in> set (tbl_chunks db). file_metadata_id ch = fm_id r \<longrightarrow>
                   chunk_id ch \<notin> chunk_id ` set (tbl_chunks db') \<and>
                   chunk_id ch \<notin> emb_chunk_id ` set (tbl_embeddings db'))"
      by blast
  qed
  have ne: "cs \<noteq> []" using assms(2) by (simp add: cs_def)
  have "indexCollections fs name full db = (Inr (IndexResults res), db')"
    using run ne by (simp add: indexCollections_def cs_def[symmetric] r0_def[symmetric])
  moreover have "removed res =
      sum_list (map (\<lambda>c. length (filter (removed_file fs c) (tbl_file_metadata db))) cs)"
    using cnt by (simp add: r0_def)
  moreover have "map c_removed (collection_results res) =
      map (\<lambda>c. length (filter (removed_file fs c) (tbl_file_metadata db))) cs"
    using per by (simp add: r0_def)
  ultimately show ?thesis
    using a unfolding cs_def by blast
qed

theorem reindex_removes_deleted_files_witness:
  "store_ok vector_db \<and> getCollections vector_db None \<noteq> [] \<and>
   map file_path (tbl_file_metadata vector_db) = [js ''/n/a.md''] \<and>
   map chunk_id (tbl_chunks vector_db) = [1, 2] \<and>
   map emb_chunk_id (tbl_embeddings vector_db) = [1, 2] \<and>
   (\<exists>results db'.
      indexCollections example_fs None False vector_db = (Inr (IndexResults results), db') \<and>
      removed results = 1 \<and>
      map c_removed (collection_results results) = [1] \<and>
      1 \<notin> fm_id ` set (tbl_file_metadata db') \<and>
      1 \<notin> file_metadata_id ` set (tbl_chunks db') \<and>
      1 \<notin> chunk_id ` set (tbl_chunks db') \<and> 2 \<notin> chunk_id ` set (tbl_chunks db') \<and>
      1 \<notin> emb_chunk_id ` set (tbl_embeddings db') \<and>
      2 \<notin> emb_chunk_id ` set (tbl_embeddings db'))"
proof -
  let ?coll = "\<lparr>col_id = 1, col_name = js ''notes'', base_path = js ''/n'', glob_mask = js ''*.md''\<rparr>"
  let ?row = "\<lparr>fm_id = 1, collection_id = 1, file_path = js ''/n/a.md'', file_hash = js ''h1''\<rparr>"
  have ne: "getCollections vector_db None \<noteq> []" by (simp add: example_collections)
  have row: "?row \<in> set (tbl_file_metadata vector_db)" "removed_file example_fs ?coll ?row"
    by (simp_all add: vector_db_def example_db_def removed_file_def stale_def discoverFiles_def
        example_fs_def js_def)
  from reindex_removes_deleted_files[OF example_store_ok ne, of example_fs False]
  obtain results db' where
    run: "indexCollections example_fs None False vector_db = (Inr (IndexResults results), db')"
    and cnt: "removed results =
             sum_list (map (\<lambda>c. length (filter (removed_file example_fs c) (tbl_file_metadata vector_db)))
                         (getCollections vector_db None))"
    and per: "map c_removed (collection_results results) =
             map (\<lambda>c. length (filter (removed_file example_fs c) (tbl_file_metadata vector_db)))
               (getCollections vector_db None)"
    and gone: "\<forall>c \<in> set (getCollections vector_db None).
              \<forall>r \<in> set (tbl_file_metadata vector_db). removed_file example_fs c r \<longrightarrow>
                r \<notin> set (tbl_file_metadata db') \<and>
                fm_id r \<notin> fm_id ` set (tbl_file_metadata db') \<and>
                (\<forall>ch \<in> set (tbl_chunks db'). file_metadata_id ch \<noteq> fm_id r) \<and>
                (\<forall>ch \<in> set (tbl_chunks vector_db). file_metadata_id ch = fm_id r \<longrightarrow>
                   chunk_id ch \<notin> chunk_id ` set (tbl_chunks db') \<and>
                   chunk_id ch \<notin> emb_chunk_id ` set (tbl_embeddings db'))"
    by blast
  have "?coll \<in> set (getCollections vector_db None)" by (simp add: example_collections)
  with gone row have g: "fm_id ?row \<notin> fm_id ` set (tbl_file_metadata db')"
    "\<forall>ch \<in> set (tbl_chunks db'). file_metadata_id ch \<noteq> fm_id ?row"
    "\<forall>ch \<in> set (tbl_chunks vector_db). file_metadata_id ch = fm_id ?row \<longrightarrow>
                 chunk_id ch \<notin> chunk_id ` set (tbl_chunks db') \<and>
                 chunk_id ch \<notin> emb_chunk_id ` set (tbl_embeddings db')"
    by blast+
  have c1: "removed results = 1"
    unfolding cnt example_collections list.map example_removed by simp
  have c2: "map c_removed (collection_results results) = [1]"
    unfolding per example_collections list.map example_removed by simp
  have "1 \<notin> fm_id ` set (tbl_file_metadata db')" using g(1) by simp
  moreover have "1 \<notin> file_metadata_id ` set (tbl_chunks db')" using g(2) by auto
  moreover have "1 \<notin> chunk_id ` set (tbl_chunks db') \<and> 2 \<notin> chunk_id ` set (tbl_chunks db') \<and>
      1 \<notin> emb_chunk_id ` set (tbl_embeddings db') \<and> 2 \<notin> emb_chunk_id ` set (tbl_embeddings db')"
    using g(3) by (simp add: vector_db_def example_db_def)
  moreover have "map file_path (tbl_file_metadata vector_db) = [js ''/n/a.md''] \<and>
      map chunk_id (tbl_chunks vector_db) = [1, 2] \<and>
      map emb_chunk_id (tbl_embeddings vector_db) = [1, 2]"
    by (simp add: vector_db_def example_db_def)
  ultimately show ?thesis
    using example_store_ok ne run c1 c2 by auto
qed

text \<open>
  Claim C7. After a run of \<open>indexCollections\<close> on a store that satisfies the constraints
  of the schema, a second run with \<open>full\<close> false on the same files returns results with
  \<open>indexed = 0\<close>, \<open>skipped = totalFiles\<close> (the number of matched files of the selected
  collections) and \<open>removed = 0\<close>, every collection reporting all its matched files as
  skipped, and leaves the store as it is. On any store, \<open>indexFile\<close> without
  \<open>forceReindex\<close> on a readable text file whose row holds the hash of its content returns
  \<^verbatim>\<open>unchanged\<close> and the store as it is.
\<close>

theorem reindex_unchanged_corpus:
  assumes "store_ok db" and "getCollections db name \<noteq> []"
  shows "(\<exists>first db' second.
           indexCollections fs name full db = (Inr (IndexResults first), db') \<and>
           indexCollections fs name False db' = (Inr (IndexResults second), db') \<and>
           indexed second = 0 \<and> skipped second = totalFiles second \<and> removed second = 0 \<and>
           totalChunks second = 0 \<and>
           totalFiles second =
             sum_list (map (\<lambda>c. length (discoverFiles fs c)) (getCollections db name)) \<and>
           collection_results second =
             map (\<lambda>c. \<lparr>c_name = col_name c, c_files = length (discoverFiles fs c),
                        c_indexed = 0, c_skipped = length (discoverFiles fs c),
                        c_removed = 0, c_chunks = 0\<rparr>) (getCollections db name)) \<and>
         (\<forall>store cid path content r.
            existsSync fs path \<and> readFileSafe fs path = Inr (Some content) \<and>
            find_file_metadata store cid path = Some r \<and> file_hash r = hashContent fs content \<longrightarrow>
            indexFile fs cid path False store = Inr (NotIndexed unchanged, store))"
proof -
  define r0 where "r0 = \<lparr>collection_results = [], totalFiles = 0, totalChunks = 0,
                    indexed = 0, skipped = 0, removed = 0\<rparr>"
  define cs where "cs = getCollections db name"
  note c = getCollections_props[OF assms(1), of name, folded cs_def]
  from index_loop_props[OF assms(1) c, of fs full r0] obtain first db' where
    first: "index_loop fs full cs r0 db = (Inr first, db')" "store_ok db'"
      "tbl_collections db' = tbl_collections db" "\<forall>c \<in> set cs. collection_synced fs c db'"
    by blast
  have cs': "getCollections db' name = cs"
    using getCollections_cong[OF first(3)] by (simp add: cs_def)
  from index_loop_noop[OF first(2,4), of r0] obtain second where
    second: "index_loop fs False cs r0 db' = (Inr second, db')"
      "indexed second = indexed r0" "removed second = removed r0"
      "totalChunks second = totalChunks r0"
      "skipped second = skipped r0 + sum_list (map (\<lambda>c. length (discoverFiles fs c)) cs)"
      "totalFiles second = totalFiles r0 + sum_list (map (\<lambda>c. length (discoverFiles fs c)) cs)"
      "collection_results second = collection_results r0 @
             map (\<lambda>c. \<lparr>c_name = col_name c, c_files = length (discoverFiles fs c),
                        c_indexed = 0, c_skipped = length (discoverFiles fs c),
                        c_removed = 0, c_chunks = 0\<rparr>) cs"
    by blast
  have ne: "cs \<noteq> []" using assms(2) by (simp add: cs_def)
  have "indexCollections fs name full db = (Inr (IndexResults first), db')"
    using first(1) ne by (simp add: indexCollections_def cs_def[symmetric] r0_def[symmetric])
  moreover have "indexCollections fs name False db' = (Inr (IndexResults second), db')"
    using second(1) ne by (simp add: indexCollections_def cs' r0_def[symmetric])
  ultimately have "\<exists>first db' second.
           indexCollections fs name full db = (Inr (IndexResults first), db') \<and>
           indexCollections fs name False db' = (Inr (IndexResults second), db') \<and>
           indexed second = 0 \<and> skipped second = totalFiles second \<and> removed second = 0 \<and>
           totalChunks second = 0 \<and>
           totalFiles second =
             sum_list (map (\<lambda>c. length (discoverFiles fs c)) (getCollections db name)) \<and>
           collection_results second =
             map (\<lambda>c. \<lparr>c_name = col_name c, c_files = length (discoverFiles fs c),
                        c_indexed = 0, c_skipped = length (discoverFiles fs c),
                        c_removed = 0, c_chunks = 0\<rparr>) (getCollections db name)"
    using second(2-7) by (simp add: r0_def cs_def)
  then show ?thesis using indexFile_unchanged[of fs] by blast
qed

theorem reindex_unchanged_corpus_witness:
  "store_ok vector_db \<and> getCollections vector_db None \<noteq> [] \<and>
   (\<exists>first db' second.
      indexCollections example_fs None False vector_db = (Inr (IndexResults first), db') \<and>
      indexCollections example_fs None False db' = (Inr (IndexResults second), db') \<and>
      indexed second = 0 \<and> skipped second = 1 \<and> totalFiles second = 1 \<and> removed second = 0 \<and>
      collection_results second =
        [\<lparr>c_name = js ''notes'', c_files = 1, c_indexed = 0, c_skipped = 1, c_removed = 0,
          c_chunks = 0\<rparr>])"
proof -
  have ne: "getCollections vector_db None \<noteq> []" by (simp add: example_collections)
  have files: "length (discoverFiles example_fs c) = 1" for c
    by (simp add: discoverFiles_def example_fs_def)
  from reindex_unchanged_corpus[OF example_store_ok ne, of example_fs False]
  obtain first db' second where
    "indexCollections example_fs None False vector_db = (Inr (IndexResults first), db')"
    "indexCollections example_fs None False db' = (Inr (IndexResults second), db')"
    "indexed second = 0" "skipped second = totalFiles second" "removed second = 0"
    "totalFiles second =
       sum_list (map (\<lambda>c. length (discoverFiles example_fs c)) (getCollections vector_db None))"
    "collection_results second =
             map (\<lambda>c. \<lparr>c_name = col_name c, c_files = length (discoverFiles example_fs c),
                        c_indexed = 0, c_skipped = length (discoverFiles example_fs c),
                        c_removed = 0, c_chunks = 0\<rparr>) (getCollections vector_db None)"
    by blast
  then show ?thesis
    using example_store_ok ne unfolding example_collections files by auto
qed

end
